theory Spec2Isabelle
  imports
    Main
    "HOL-Library.Char_ord"
    "HOL-Library.List_Lexorder"
    "HOL-Library.Multiset"
begin

section \<open>JavaScript values used by the env-var resolution engine\<close>

text \<open>
  Strings are lists of code units below 256 (\<open>char\<close>); \<open>s < t\<close> on strings is the
  lexicographic comparison of code units that JavaScript's \<open><\<close> performs (a proper prefix
  is smaller). \<open>toLowerCase\<close> maps \<open>A\<close>..\<open>Z\<close> and the Latin-1 capitals
  (codes 192..222 except 215) to the code 32 above, as \<open>String.prototype.toLowerCase\<close>
  does on this range.
\<close>

definition lower_char :: "char \<Rightarrow> char" where
  "lower_char c =
     (let n = (of_char c :: nat)
      in if (65 \<le> n \<and> n \<le> 90) \<or> (192 \<le> n \<and> n \<le> 222 \<and> n \<noteq> 215)
         then char_of (n + 32) else c)"

definition toLowerCase :: "string \<Rightarrow> string" where
  "toLowerCase s = map lower_char s"

text \<open>A parameter with a default takes the default when the argument is \<open>undefined\<close>
  (\<open>None\<close>).\<close>

definition or_default :: "'a \<Rightarrow> 'a option \<Rightarrow> 'a" where
  "or_default d x = (case x of None \<Rightarrow> d | Some v \<Rightarrow> v)"

text \<open>A string is truthy unless it is empty.\<close>

definition truthy :: "string \<Rightarrow> bool" where
  "truthy s = (s \<noteq> [])"

text \<open>
  An object with string keys is an association list in insertion order with distinct keys.
  Assigning to a key that exists replaces the value in place and keeps the key's position;
  a new key goes to the end. (Keys are variable names; the special enumeration order of
  integer-like keys is not part of the model.)
\<close>

type_synonym 'v obj = "(string \<times> 'v) list"

fun obj_set :: "'v obj \<Rightarrow> string \<Rightarrow> 'v \<Rightarrow> 'v obj" where
  "obj_set [] k v = [(k, v)]"
| "obj_set ((k', v') # rest) k v =
     (if k' = k then (k, v) # rest else (k', v') # obj_set rest k v)"

text \<open>Object spread \<open>{...a, ...b}\<close>: copy \<open>a\<close>, then assign the entries of \<open>b\<close> in order.\<close>

definition spread :: "'v obj \<Rightarrow> 'v obj \<Rightarrow> 'v obj" where
  "spread a b = foldl (\<lambda>acc (k, v). obj_set acc k v) a b"

text \<open>\<open>Object.entries\<close> lists the entries in order; \<open>Object.fromEntries\<close> assigns them
  one by one to a new object.\<close>

definition entries :: "'v obj \<Rightarrow> (string \<times> 'v) list" where
  "entries ob = ob"

definition fromEntries :: "(string \<times> 'v) list \<Rightarrow> 'v obj" where
  "fromEntries es = foldl (\<lambda>acc (k, v). obj_set acc k v) [] es"

text \<open>
  \<open>Array.prototype.sort\<close> with a comparator. The comparator of this program never returns
  0, and for such a comparator the language leaves the order to the engine. The model is
  the engine of Node.js: V8 places each element in turn into the sorted prefix (binary
  insertion, the whole sort for arrays shorter than 64 elements; longer arrays are merged
  from runs sorted this way), calling the comparator with the element being placed first
  and an element already placed second. The element goes before the first placed element that
  the comparator puts it below, and after all the others.
\<close>

fun insert_by :: "('a \<Rightarrow> 'a \<Rightarrow> int) \<Rightarrow> 'a \<Rightarrow> 'a list \<Rightarrow> 'a list" where
  "insert_by cmp x [] = [x]"
| "insert_by cmp x (y # ys) =
     (if cmp x y < 0 then x # y # ys else y # insert_by cmp x ys)"

fun sort_into :: "('a \<Rightarrow> 'a \<Rightarrow> int) \<Rightarrow> 'a list \<Rightarrow> 'a list \<Rightarrow> 'a list" where
  "sort_into cmp acc [] = acc"
| "sort_into cmp acc (x # xs) = sort_into cmp (insert_by cmp x acc) xs"

definition array_sort :: "('a \<Rightarrow> 'a \<Rightarrow> int) \<Rightarrow> 'a list \<Rightarrow> 'a list" where
  "array_sort cmp xs = sort_into cmp [] xs"

section \<open>Data model\<close>

text \<open>A ValueEntry \<open>{context, value}\<close> and a Variable Record \<open>{key, scopes, values}\<close> of the
  remote service.\<close>

record value_entry =
  ve_context :: string
  ve_value :: string

record envelope_item =
  key :: string
  scopes :: "string list"
  item_values :: "value_entry list"

text \<open>
  An entry of the resolved mapping and of the legacy flat env. Entries that come from the
  local configuration carry no \<open>context\<close> and no \<open>scopes\<close> (\<open>None\<close> is \<open>undefined\<close>).
\<close>

record env_var =
  var_context :: "string option"
  var_scopes :: "string list option"
  sources :: "string list"
  var_value :: string

type_synonym env = "env_var obj"

section \<open>Context Matcher and Source Filter\<close>

text \<open>\<open>values.find((val) => [context, 'all'].includes(val.context))\<close>\<close>

definition findValueFromContext :: "value_entry list \<Rightarrow> string \<Rightarrow> value_entry option" where
  "findValueFromContext vals ctx =
     List.find (\<lambda>val. ve_context val \<in> set [ctx, ''all'']) vals"

text \<open>\<open>variable.sources[0] === source\<close>; reading index 0 of an empty array gives
  \<open>undefined\<close>, which equals no source tag.\<close>

definition first_source_is :: "string \<Rightarrow> env_var \<Rightarrow> bool" where
  "first_source_is source variable =
     (case sources variable of [] \<Rightarrow> False | s # _ \<Rightarrow> s = source)"

definition filterEnvBySource :: "env \<Rightarrow> string \<Rightarrow> env" where
  "filterEnvBySource e source =
     fromEntries (filter (\<lambda>(_, variable). first_source_is source variable) (entries e))"

section \<open>Remote Fetcher\<close>

text \<open>
  The variable-service client: \<open>getEnvVar({accountId, key, siteId})\<close> and
  \<open>getEnvVars({accountId, siteId})\<close> either yield their answer or fail with an error of
  the client's own type \<open>'e\<close>. The fetcher's result is the object \<open>{}\<close> or an array of
  records; it is returned together with the list of client calls made.
\<close>

record 'e api =
  getEnvVar :: "string \<Rightarrow> string \<Rightarrow> string option \<Rightarrow> 'e + envelope_item"
  getEnvVars :: "string \<Rightarrow> string option \<Rightarrow> 'e + envelope_item list"

datatype api_call =
  GetEnvVar string string "string option"
| GetEnvVars string "string option"

datatype fetched = EmptyObject | Items "envelope_item list"

definition fetchEnvelopeItems ::
  "string option \<Rightarrow> 'e api \<Rightarrow> string option \<Rightarrow> string option \<Rightarrow> fetched \<times> api_call list"
where
  "fetchEnvelopeItems accountId client k siteId =
     (case accountId of
        None \<Rightarrow> (EmptyObject, [])
      | Some a \<Rightarrow>
          (if truthy (or_default [] k) then
             (case getEnvVar client a (or_default [] k) siteId of
                Inr envelopeItem \<Rightarrow> (Items [envelopeItem], [GetEnvVar a (or_default [] k) siteId])
              | Inl _ \<Rightarrow> (Items [], [GetEnvVar a (or_default [] k) siteId]))
           else
             (case getEnvVars client a siteId of
                Inr envelopeItems \<Rightarrow> (Items envelopeItems, [GetEnvVars a siteId])
              | Inl _ \<Rightarrow> (Items [], [GetEnvVars a siteId]))))"

definition is_empty_result :: "fetched \<Rightarrow> bool" where
  "is_empty_result r = (case r of EmptyObject \<Rightarrow> True | Items xs \<Rightarrow> xs = [])"

section \<open>Context/Scope Formatter\<close>

text \<open>A fault that propagates to the caller: calling \<open>.filter\<close> on a value that has no such
  method, or destructuring \<open>undefined\<close>, raises a \<open>TypeError\<close>.\<close>

datatype fault = TypeError

text \<open>The comparator \<open>(left, right) => (left.key.toLowerCase() < right.key.toLowerCase() ? -1 : 1)\<close>.\<close>

definition compareKeys :: "envelope_item \<Rightarrow> envelope_item \<Rightarrow> int" where
  "compareKeys left right =
     (if toLowerCase (key left) < toLowerCase (key right) then - 1 else 1)"

text \<open>One step of the \<open>reduce\<close>: \<open>{...acc, [cur.key]: {context, scopes, sources: [source], value}}\<close>.\<close>

definition format_step :: "string \<Rightarrow> string \<Rightarrow> fault + env \<Rightarrow> envelope_item \<Rightarrow> fault + env" where
  "format_step ctx source acc cur =
     (case acc of
        Inl f \<Rightarrow> Inl f
      | Inr a \<Rightarrow>
          (case findValueFromContext (item_values cur) ctx of
             None \<Rightarrow> Inl TypeError
           | Some val \<Rightarrow>
               Inr (obj_set a (key cur)
                 \<lparr>var_context = Some (ve_context val), var_scopes = Some (scopes cur),
                  sources = [source], var_value = ve_value val\<rparr>)))"

definition formatEnvelopeData ::
  "string option \<Rightarrow> fetched option \<Rightarrow> string option \<Rightarrow> string \<Rightarrow> fault + env"
where
  "formatEnvelopeData context envelopeItems scope source =
     (let ctx = or_default ''dev'' context;
          sc = or_default ''any'' scope
      in case or_default (Items []) envelopeItems of
           EmptyObject \<Rightarrow> Inl TypeError
         | Items its \<Rightarrow>
             foldl (format_step ctx source) (Inr [])
               (array_sort compareKeys
                 (filter (\<lambda>r. if sc = ''any'' then True else sc \<in> set (scopes r))
                   (filter (\<lambda>r. findValueFromContext (item_values r) ctx \<noteq> None) its))))"

section \<open>Env Resolver\<close>

record site_info =
  account_slug :: "string option"
  site_id :: "string option"

definition includeConfigEnvVars :: "string \<Rightarrow> bool" where
  "includeConfigEnvVars scope = (scope \<in> set [''any'', ''builds'', ''post_processing''])"

definition getEnvelopeEnv ::
  "'e api \<Rightarrow> string option \<Rightarrow> env \<Rightarrow> string option \<Rightarrow> string option \<Rightarrow> site_info
     \<Rightarrow> fault + env"
where
  "getEnvelopeEnv client context e k scope siteInfo =
     (let ctx = or_default ''dev'' context;
          ky = or_default [] k;
          sc = or_default ''any'' scope;
          accountId = account_slug siteInfo;
          siteId = site_id siteInfo;
          accountEnvelopeItems = fst (fetchEnvelopeItems accountId client (Some ky) None);
          siteEnvelopeItems = fst (fetchEnvelopeItems accountId client (Some ky) siteId)
      in case formatEnvelopeData (Some ctx) (Some accountEnvelopeItems) (Some sc) ''account'' of
           Inl f \<Rightarrow> Inl f
         | Inr accountEnv \<Rightarrow>
             (case formatEnvelopeData (Some ctx) (Some siteEnvelopeItems) (Some sc) ''ui'' of
                Inl f \<Rightarrow> Inl f
              | Inr siteEnv \<Rightarrow>
                  (let generalEnv = filterEnvBySource e ''general'';
                       addonsEnv = filterEnvBySource e ''addons'';
                       configFileEnv = filterEnvBySource e ''configFile''
                   in Inr (spread (spread (spread (spread (spread [] generalEnv) accountEnv)
                             (if includeConfigEnvVars sc then addonsEnv else []))
                             siteEnv)
                             (if includeConfigEnvVars sc then configFileEnv else [])))))"

section \<open>Shape Translator\<close>

text \<open>The legacy flat shape maps a variable name to its value.\<close>

definition translateFromMongoToEnvelope :: "string obj option \<Rightarrow> envelope_item list" where
  "translateFromMongoToEnvelope e =
     map (\<lambda>(k, v).
           \<lparr>key = k, scopes = [''builds'', ''functions'', ''runtime'', ''post_processing''],
            item_values = [\<lparr>ve_context = ''all'', ve_value = v\<rparr>]\<rparr>)
         (entries (or_default [] e))"

definition mongo_step :: "string obj \<Rightarrow> envelope_item \<Rightarrow> string obj" where
  "mongo_step acc cur =
     (case List.find (\<lambda>val. ve_context val \<in> set [''dev'', ''all'']) (item_values cur) of
        Some envVar \<Rightarrow>
          (if truthy (ve_value envVar) then obj_set acc (key cur) (ve_value envVar) else acc)
      | None \<Rightarrow> acc)"

text \<open>
  Arrays are passed by reference: a store holds the contents of every array, an address is
  an index into it. \<open>filter\<close> allocates a new array; \<open>sort\<close> rearranges the array it is
  called on and returns the same address.
\<close>

type_synonym store = "envelope_item list list"

definition array_filter :: "(envelope_item \<Rightarrow> bool) \<Rightarrow> nat \<Rightarrow> store \<Rightarrow> nat \<times> store" where
  "array_filter p a st = (length st, st @ [filter p (st ! a)])"

definition array_sort_in_place ::
  "(envelope_item \<Rightarrow> envelope_item \<Rightarrow> int) \<Rightarrow> nat \<Rightarrow> store \<Rightarrow> nat \<times> store" where
  "array_sort_in_place cmp a st = (a, st[a := array_sort cmp (st ! a)])"

text \<open>\<open>translateFromEnvelopeToMongo\<close> on the store: the object returned and the store after
  the call. The argument \<open>envVars\<close> is the address of the caller's array.\<close>

definition translateFromEnvelopeToMongo_st :: "nat \<Rightarrow> store \<Rightarrow> string obj \<times> store" where
  "translateFromEnvelopeToMongo_st envVars st =
     (let (sorted_addr, st') = array_sort_in_place compareKeys envVars st
      in (foldl mongo_step [] (st' ! sorted_addr), st'))"

text \<open>The object \<open>translateFromEnvelopeToMongo\<close> returns, as a function of the contents of its
  argument (an empty array when the argument is \<open>undefined\<close>).\<close>

definition translateFromEnvelopeToMongo :: "envelope_item list option \<Rightarrow> string obj" where
  "translateFromEnvelopeToMongo envVars =
     foldl mongo_step [] (array_sort compareKeys (or_default [] envVars))"

text \<open>\<open>formatEnvelopeData\<close> on the store, for an array argument with all parameters given.\<close>

definition formatEnvelopeData_st ::
  "string \<Rightarrow> nat \<Rightarrow> string \<Rightarrow> string \<Rightarrow> store \<Rightarrow> (fault + env) \<times> store" where
  "formatEnvelopeData_st ctx envelopeItems sc source st =
     (let (a1, st1) =
            array_filter (\<lambda>r. findValueFromContext (item_values r) ctx \<noteq> None) envelopeItems st;
          (a2, st2) =
            array_filter (\<lambda>r. if sc = ''any'' then True else sc \<in> set (scopes r)) a1 st1;
          (a3, st3) = array_sort_in_place compareKeys a2 st2
      in (foldl (format_step ctx source) (Inr []) (st3 ! a3), st3))"

text \<open>The sort key of the comparator: the record's key in lower case.\<close>

definition lower_key :: "envelope_item \<Rightarrow> string" where
  "lower_key r = toLowerCase (key r)"

section \<open>Properties and example inputs\<close>

text \<open>An entry of the legacy flat env that carries the single source \<open>source\<close>.\<close>

definition legacy_var :: "string \<Rightarrow> string \<Rightarrow> env_var" where
  "legacy_var source v = \<lparr>var_context = None, var_scopes = None, sources = [source], var_value = v\<rparr>"

text \<open>The filter results over the tags \<open>tags\<close> partition the env \<open>e\<close>: every entry of \<open>e\<close>
  appears in the result for exactly one of the tags.\<close>

definition partitions_by :: "string list \<Rightarrow> env \<Rightarrow> bool" where
  "partitions_by tags e =
     (\<forall>kv \<in> set e. length (filter (\<lambda>t. kv \<in> set (filterEnvBySource e t)) tags) = 1)"

text \<open>An env with one single-source entry for each of the five source tags that the source
  documents (\<open>enum<general,account,addons,ui,configFile>\<close>).\<close>

definition five_env :: env where
  "five_env =
     [(''G'', legacy_var ''general'' ''1''), (''A'', legacy_var ''account'' ''2''),
      (''D'', legacy_var ''addons'' ''3''), (''U'', legacy_var ''ui'' ''4''),
      (''C'', legacy_var ''configFile'' ''5'')]"

text \<open>A client every call of which fails (a collaborator who may not read shared variables).\<close>

definition failing_client :: "string api" where
  "failing_client =
     \<lparr>getEnvVar = (\<lambda>accountId k siteId. Inl ''forbidden''),
      getEnvVars = (\<lambda>accountId siteId. Inl ''forbidden'')\<rparr>"

text \<open>The entry the formatter emits for a record: built from the first value entry that
  matches the context, absent when there is none.\<close>

definition format_entry :: "string \<Rightarrow> string \<Rightarrow> envelope_item \<Rightarrow> env_var option" where
  "format_entry ctx source r =
     map_option
       (\<lambda>val. \<lparr>var_context = Some (ve_context val), var_scopes = Some (scopes r),
               sources = [source], var_value = ve_value val\<rparr>)
       (findValueFromContext (item_values r) ctx)"

text \<open>Two remote records, keys \<open>banana\<close> and \<open>Apple\<close>.\<close>

definition banana_item :: envelope_item where
  "banana_item =
     \<lparr>key = ''banana'', scopes = [''builds''],
      item_values = [\<lparr>ve_context = ''production'', ve_value = ''p''\<rparr>,
                     \<lparr>ve_context = ''all'', ve_value = ''yellow''\<rparr>]\<rparr>"

definition apple_item :: envelope_item where
  "apple_item =
     \<lparr>key = ''Apple'', scopes = [''builds'', ''functions''],
      item_values = [\<lparr>ve_context = ''dev'', ve_value = ''red''\<rparr>]\<rparr>"

text \<open>Whether the resolver merges the addons and config-file entries, for the scope argument
  as passed (\<open>any\<close> when absent).\<close>

definition included :: "string option \<Rightarrow> bool" where
  "included scope = (or_default ''any'' scope \<in> {''any'', ''builds'', ''post_processing''})"

text \<open>A client that knows one variable \<open>A\<close>, with value \<open>2\<close> at the account level and
  value \<open>3\<close> at the site level, and a site with an account.\<close>

definition account_item :: envelope_item where
  "account_item =
     \<lparr>key = ''A'', scopes = [''builds'', ''functions''],
      item_values = [\<lparr>ve_context = ''all'', ve_value = ''2''\<rparr>]\<rparr>"

definition site_item :: envelope_item where
  "site_item =
     \<lparr>key = ''A'', scopes = [''builds'', ''functions''],
      item_values = [\<lparr>ve_context = ''dev'', ve_value = ''3''\<rparr>]\<rparr>"

definition example_client :: "string api" where
  "example_client =
     \<lparr>getEnvVar = (\<lambda>accountId k siteId.
         if k = ''A'' then Inr (case siteId of None \<Rightarrow> account_item | Some _ \<Rightarrow> site_item)
         else Inl ''not found''),
      getEnvVars = (\<lambda>accountId siteId.
         Inr (case siteId of None \<Rightarrow> [account_item] | Some _ \<Rightarrow> [site_item]))\<rparr>"

definition example_site :: site_info where
  "example_site = \<lparr>account_slug = Some ''acct'', site_id = Some ''site''\<rparr>"

text \<open>A local env with a general, an addons and a config-file entry, and the entry that the
  site-level record \<open>A\<close> resolves to.\<close>

definition local_env :: env where
  "local_env =
     [(''G'', legacy_var ''general'' ''1''), (''D'', legacy_var ''addons'' ''3''),
      (''C'', legacy_var ''configFile'' ''5'')]"

definition site_entry :: env_var where
  "site_entry =
     \<lparr>var_context = Some ''dev'', var_scopes = Some [''builds'', ''functions''],
      sources = [''ui''], var_value = ''3''\<rparr>"

text \<open>The value the Multi-to-Flat translator emits for a record, if any, and the entries it
  emits for a sequence of records.\<close>

definition mongo_value :: "envelope_item \<Rightarrow> string option" where
  "mongo_value r =
     (case List.find (\<lambda>val. ve_context val \<in> set [''dev'', ''all'']) (item_values r) of
        Some envVar \<Rightarrow> if truthy (ve_value envVar) then Some (ve_value envVar) else None
      | None \<Rightarrow> None)"

definition mongo_entries :: "envelope_item list \<Rightarrow> string obj" where
  "mongo_entries xs = List.map_filter (\<lambda>r. map_option (\<lambda>v. (key r, v)) (mongo_value r)) xs"



text \<open>An array that a caller passes to the translator.\<close>

definition caller_array :: "envelope_item list" where
  "caller_array = [banana_item, apple_item]"

section \<open>Helper facts\<close>

subsection \<open>Objects\<close>

lemma map_of_obj_set: "map_of (obj_set ob k v) = (map_of ob)(k \<mapsto> v)"
  by (induction ob) (auto simp: fun_eq_iff)

lemma map_fst_obj_set:
  "map fst (obj_set ob k v) = (if k \<in> fst ` set ob then map fst ob else map fst ob @ [k])"
  by (induction ob) force+

lemma keys_obj_set: "fst ` set (obj_set ob k v) = insert k (fst ` set ob)"
proof -
  have "set (map fst (obj_set ob k v)) = insert k (set (map fst ob))"
    unfolding map_fst_obj_set by auto
  then show ?thesis by simp
qed

lemma distinct_obj_set: "distinct (map fst ob) \<Longrightarrow> distinct (map fst (obj_set ob k v))"
  by (simp add: map_fst_obj_set)

lemma obj_set_fresh: "k \<notin> fst ` set ob \<Longrightarrow> obj_set ob k v = ob @ [(k, v)]"
  by (induction ob) auto

lemma foldl_obj_set_fresh:
  "distinct (map fst (a @ b)) \<Longrightarrow> foldl (\<lambda>acc (k, v). obj_set acc k v) a b = a @ b"
proof (induction b arbitrary: a)
  case Nil
  then show ?case by simp
next
  case (Cons p b)
  obtain k v where p: "p = (k, v)" by (cases p)
  from Cons.prems have fresh: "k \<notin> fst ` set a" by (auto simp: p)
  from Cons.prems have "distinct (map fst ((a @ [(k, v)]) @ b))" by (simp add: p)
  from Cons.IH [OF this] show ?case by (simp add: p obj_set_fresh [OF fresh])
qed

lemma fromEntries_distinct: "distinct (map fst es) \<Longrightarrow> fromEntries es = es"
  using foldl_obj_set_fresh [of "[]" es] by (simp add: fromEntries_def)

lemma map_of_spread: "distinct (map fst b) \<Longrightarrow> map_of (spread a b) = map_of a ++ map_of b"
proof (induction b arbitrary: a)
  case Nil
  then show ?case by (simp add: spread_def)
next
  case (Cons p b)
  obtain k v where p: "p = (k, v)" by (cases p)
  from Cons.prems have nk: "map_of b k = None" and d: "distinct (map fst b)"
    by (auto simp: p map_of_eq_None_iff)
  have "spread a (p # b) = spread (obj_set a k v) b" by (simp add: spread_def p)
  also have "map_of \<dots> = map_of (obj_set a k v) ++ map_of b" by (rule Cons.IH [OF d])
  also have "\<dots> = map_of a ++ map_of (p # b)"
    by (rule ext) (simp add: p map_of_obj_set map_add_def nk split: option.splits)
  finally show ?case .
qed

lemma distinct_spread: "distinct (map fst a) \<Longrightarrow> distinct (map fst (spread a b))"
proof (induction b arbitrary: a)
  case Nil
  then show ?case by (simp add: spread_def)
next
  case (Cons p b)
  obtain k v where p: "p = (k, v)" by (cases p)
  have "spread a (p # b) = spread (obj_set a k v) b" by (simp add: spread_def p)
  with Cons.IH [OF distinct_obj_set [OF Cons.prems]] show ?case by simp
qed

lemma keys_spread: "fst ` set (spread a b) = fst ` set a \<union> fst ` set b"
proof (induction b arbitrary: a)
  case Nil
  then show ?case by (simp add: spread_def)
next
  case (Cons p b)
  obtain k v where p: "p = (k, v)" by (cases p)
  have "spread a (p # b) = spread (obj_set a k v) b" by (simp add: spread_def p)
  then show ?case by (simp add: Cons.IH keys_obj_set p)
qed

subsection \<open>Sorting\<close>

lemma mset_insert_by: "mset (insert_by cmp x ys) = add_mset x (mset ys)"
  by (induction ys) auto

lemma mset_sort_into: "mset (sort_into cmp acc xs) = mset acc + mset xs"
  by (induction xs arbitrary: acc) (auto simp: mset_insert_by)

lemma set_insert_by: "set (insert_by cmp x ys) = insert x (set ys)"
  by (induction ys) auto

lemma sorted_insert_by:
  "sorted (map lower_key ys) \<Longrightarrow> sorted (map lower_key (insert_by compareKeys x ys))"
  by (induction ys) (auto simp: compareKeys_def lower_key_def set_insert_by)

lemma filter_insert_by:
  "sorted (map lower_key ys) \<Longrightarrow>
   filter (\<lambda>y. lower_key y = c) (insert_by compareKeys x ys) =
   filter (\<lambda>y. lower_key y = c) ys @ (if lower_key x = c then [x] else [])"
proof (induction ys)
  case Nil
  then show ?case by simp
next
  case (Cons y ys)
  show ?case
  proof (cases "compareKeys x y < 0")
    case True
    then have lt: "lower_key x < lower_key y" by (simp add: compareKeys_def lower_key_def split: if_splits)
    with Cons.prems have "\<forall>z \<in> set (y # ys). lower_key x < lower_key z" by auto
    then have "lower_key x = c \<Longrightarrow> filter (\<lambda>y. lower_key y = c) (y # ys) = []"
      by (auto simp: filter_empty_conv)
    with True show ?thesis by auto
  next
    case False
    with Cons show ?thesis by auto
  qed
qed

lemma sorted_sort_into:
  "sorted (map lower_key acc) \<Longrightarrow> sorted (map lower_key (sort_into compareKeys acc xs))"
  by (induction xs arbitrary: acc) (auto simp: sorted_insert_by)

lemma filter_sort_into:
  "sorted (map lower_key acc) \<Longrightarrow>
   filter (\<lambda>y. lower_key y = c) (sort_into compareKeys acc xs) =
   filter (\<lambda>y. lower_key y = c) acc @ filter (\<lambda>y. lower_key y = c) xs"
  by (induction xs arbitrary: acc) (auto simp: sorted_insert_by filter_insert_by)

lemma array_sort_compareKeys: "array_sort compareKeys xs = sort_key lower_key xs"
proof (rule sym, rule properties_for_sort_key)
  show "mset (array_sort compareKeys xs) = mset xs"
    by (simp add: array_sort_def mset_sort_into)
  show "sorted (map lower_key (array_sort compareKeys xs))"
    by (simp add: array_sort_def sorted_sort_into)
  fix k
  show "filter (\<lambda>x. lower_key k = lower_key x) (array_sort compareKeys xs) =
        filter (\<lambda>x. lower_key k = lower_key x) xs"
    using filter_sort_into [of "[]" "lower_key k" xs]
    by (simp add: array_sort_def eq_commute)
qed

subsection \<open>Source Filter\<close>

lemma first_source_is_iff: "first_source_is s v \<longleftrightarrow> (\<exists>rest. sources v = s # rest)"
  by (cases "sources v") (auto simp: first_source_is_def)

lemma filterEnvBySource_filter:
  "distinct (map fst e) \<Longrightarrow>
   filterEnvBySource e s = filter (\<lambda>(n, v). first_source_is s v) e"
  by (simp add: filterEnvBySource_def entries_def fromEntries_distinct distinct_map_filter)

lemma set_filterEnvBySource:
  "distinct (map fst e) \<Longrightarrow>
   set (filterEnvBySource e s) = {(n, v). (n, v) \<in> set e \<and> first_source_is s v}"
  by (auto simp: filterEnvBySource_filter)

lemma length_filter_one:
  "distinct ts \<Longrightarrow> t \<in> set ts \<Longrightarrow> length (filter (\<lambda>u. u = t) ts) = 1"
  by (induction ts) (auto simp: filter_empty_conv)

lemma five_env_filter:
  "filterEnvBySource five_env ''general'' = [(''G'', legacy_var ''general'' ''1'')]"
  "filterEnvBySource five_env ''account'' = [(''A'', legacy_var ''account'' ''2'')]"
  "filterEnvBySource five_env ''addons'' = [(''D'', legacy_var ''addons'' ''3'')]"
  "filterEnvBySource five_env ''ui'' = [(''U'', legacy_var ''ui'' ''4'')]"
  "filterEnvBySource five_env ''configFile'' = [(''C'', legacy_var ''configFile'' ''5'')]"
  by (simp_all add: five_env_def filterEnvBySource_def entries_def fromEntries_def
      first_source_is_def legacy_var_def)

section \<open>Source Filter: exact result and partition\<close>

text \<open>
  Claim C8, as amended. For an env \<open>e\<close> (an object: distinct keys) and a tag \<open>s\<close>,
  \<open>filterEnvBySource e s\<close> holds exactly the entries of \<open>e\<close> whose first listed source is
  \<open>s\<close>. If every entry carries a single source and that source is among the distinct tags
  \<open>tags\<close>, then every entry appears in the result for exactly one tag of \<open>tags\<close>, and the
  results together make up \<open>e\<close>. The source documents five tags, not four.
\<close>

theorem filterEnvBySource_partition:
  "distinct (map fst e) \<Longrightarrow>
   (\<forall>n v. (n, v) \<in> set (filterEnvBySource e s) \<longleftrightarrow>
           (n, v) \<in> set e \<and> (\<exists>rest. sources v = s # rest)) \<and>
   (distinct tags \<and> (\<forall>(n, v) \<in> set e. \<exists>t \<in> set tags. sources v = [t])
      \<longrightarrow> partitions_by tags e \<and> (\<Union>t \<in> set tags. set (filterEnvBySource e t)) = set e)"
proof (intro conjI allI impI)
  fix n v
  assume d: "distinct (map fst e)"
  show "(n, v) \<in> set (filterEnvBySource e s) \<longleftrightarrow>
        (n, v) \<in> set e \<and> (\<exists>rest. sources v = s # rest)"
    by (simp add: set_filterEnvBySource [OF d] first_source_is_iff)
next
  assume d: "distinct (map fst e)"
    and h: "distinct tags \<and> (\<forall>(n, v) \<in> set e. \<exists>t \<in> set tags. sources v = [t])"
  show "partitions_by tags e"
    unfolding partitions_by_def
  proof
    fix kv assume kv: "kv \<in> set e"
    obtain n v where nv: "kv = (n, v)" by (cases kv)
    from h kv nv obtain t where t: "t \<in> set tags" "sources v = [t]" by auto
    have "(\<lambda>u. kv \<in> set (filterEnvBySource e u)) = (\<lambda>u. u = t)"
      using kv t by (auto simp: fun_eq_iff nv set_filterEnvBySource [OF d] first_source_is_def)
    then show "length (filter (\<lambda>t. kv \<in> set (filterEnvBySource e t)) tags) = 1"
      using length_filter_one [of tags t] h t by simp
  qed
next
  assume d: "distinct (map fst e)"
    and h: "distinct tags \<and> (\<forall>(n, v) \<in> set e. \<exists>t \<in> set tags. sources v = [t])"
  show "(\<Union>t \<in> set tags. set (filterEnvBySource e t)) = set e"
  proof (rule set_eqI)
    fix kv :: "string \<times> env_var"
    obtain n v where nv: "kv = (n, v)" by (cases kv)
    show "kv \<in> (\<Union>t \<in> set tags. set (filterEnvBySource e t)) \<longleftrightarrow> kv \<in> set e"
      using h by (fastforce simp: nv set_filterEnvBySource [OF d] first_source_is_def)
  qed
qed

text \<open>
  Claim C8, witness: the env with one entry per documented tag is partitioned by the five
  tags, and its \<open>ui\<close> entry is in the result for \<open>ui\<close>.
\<close>

theorem filterEnvBySource_partition_witness:
  "distinct (map fst five_env) \<and>
   distinct [''general'', ''account'', ''addons'', ''ui'', ''configFile''] \<and>
   partitions_by [''general'', ''account'', ''addons'', ''ui'', ''configFile''] five_env \<and>
   (''U'', legacy_var ''ui'' ''4'') \<in> set (filterEnvBySource five_env ''ui'')"
proof -
  have d: "distinct (map fst five_env)" by (simp add: five_env_def)
  have t: "distinct [''general'', ''account'', ''addons'', ''ui'', ''configFile'']" by simp
  have s: "\<forall>(n, v) \<in> set five_env.
      \<exists>t \<in> set [''general'', ''account'', ''addons'', ''ui'', ''configFile'']. sources v = [t]"
    by (simp add: five_env_def legacy_var_def)
  from filterEnvBySource_partition
    [OF d, of "''ui''" "[''general'', ''account'', ''addons'', ''ui'', ''configFile'']"]
  have "(\<forall>n v. (n, v) \<in> set (filterEnvBySource five_env ''ui'') \<longleftrightarrow>
           (n, v) \<in> set five_env \<and> (\<exists>rest. sources v = ''ui'' # rest))"
    and "partitions_by [''general'', ''account'', ''addons'', ''ui'', ''configFile''] five_env"
    using t s by blast+
  moreover have "(''U'', legacy_var ''ui'' ''4'') \<in> set five_env
      \<and> (\<exists>rest. sources (legacy_var ''ui'' ''4'') = ''ui'' # rest)"
    by (simp add: five_env_def legacy_var_def)
  ultimately show ?thesis using d t by blast
qed

text \<open>
  Claim C8 as stated fails: whichever four of the five documented tags are taken, the env
  with one single-source entry per documented tag is not partitioned, because the entry
  that carries the fifth tag is in no result.
\<close>

theorem filterEnvBySource_four_tags_counterexample:
  "\<not> partitions_by [''account'', ''addons'', ''ui'', ''configFile''] five_env \<and>
   \<not> partitions_by [''general'', ''addons'', ''ui'', ''configFile''] five_env \<and>
   \<not> partitions_by [''general'', ''account'', ''ui'', ''configFile''] five_env \<and>
   \<not> partitions_by [''general'', ''account'', ''addons'', ''configFile''] five_env \<and>
   \<not> partitions_by [''general'', ''account'', ''addons'', ''ui''] five_env"
  by (simp add: partitions_by_def five_env_filter) (simp add: five_env_def legacy_var_def)

section \<open>Remote Fetcher: no account, failing client\<close>

text \<open>
  Claim C3. Without an account identifier the fetcher returns the empty object and makes no
  client call (the list of calls is empty). With an account identifier, when the client
  call that the fetcher makes fails (\<open>getEnvVar\<close> for a truthy key, \<open>getEnvVars\<close>
  otherwise), the fetcher returns the empty array; on the list path this is the very result
  it returns for a client that answers with an empty list.
\<close>

theorem fetchEnvelopeItems_empty_on_failure:
  "fetchEnvelopeItems None client k siteId = (EmptyObject, []) \<and>
   is_empty_result (fst (fetchEnvelopeItems None client k siteId)) \<and>
   (truthy (or_default [] k) \<and> getEnvVar client a (or_default [] k) siteId = Inl err \<longrightarrow>
      fst (fetchEnvelopeItems (Some a) client k siteId) = Items [] \<and>
      is_empty_result (fst (fetchEnvelopeItems (Some a) client k siteId))) \<and>
   (\<not> truthy (or_default [] k) \<and> getEnvVars client a siteId = Inl err \<longrightarrow>
      fst (fetchEnvelopeItems (Some a) client k siteId) = Items [] \<and>
      is_empty_result (fst (fetchEnvelopeItems (Some a) client k siteId)) \<and>
      fst (fetchEnvelopeItems (Some a) client k siteId) =
        fst (fetchEnvelopeItems (Some a) (client\<lparr>getEnvVars := \<lambda>accountId siteId. Inr []\<rparr>) k siteId))"
  by (simp add: fetchEnvelopeItems_def is_empty_result_def)

text \<open>Claim C3, witness: the client that always fails, with and without a key.\<close>

theorem fetchEnvelopeItems_empty_on_failure_witness:
  "fetchEnvelopeItems None failing_client (Some ''FOO'') (Some ''site'') = (EmptyObject, []) \<and>
   fst (fetchEnvelopeItems (Some ''acct'') failing_client (Some ''FOO'') (Some ''site'')) = Items [] \<and>
   fst (fetchEnvelopeItems (Some ''acct'') failing_client None (Some ''site'')) = Items [] \<and>
   fst (fetchEnvelopeItems (Some ''acct'') failing_client None (Some ''site'')) =
     fst (fetchEnvelopeItems (Some ''acct'')
            (failing_client\<lparr>getEnvVars := \<lambda>accountId siteId. Inr []\<rparr>) None (Some ''site''))"
proof -
  have k: "truthy (or_default [] (Some ''FOO'')) \<and>
      getEnvVar failing_client ''acct'' (or_default [] (Some ''FOO'')) (Some ''site'') = Inl ''forbidden''"
    by (simp add: truthy_def or_default_def failing_client_def)
  have l: "\<not> truthy (or_default [] None) \<and>
      getEnvVars failing_client ''acct'' (Some ''site'') = Inl ''forbidden''"
    by (simp add: truthy_def or_default_def failing_client_def)
  from fetchEnvelopeItems_empty_on_failure
    [of failing_client "Some ''FOO''" "Some ''site''" "''acct''" "''forbidden''"] k
  have 1: "fetchEnvelopeItems None failing_client (Some ''FOO'') (Some ''site'') = (EmptyObject, [])"
    and 2: "fst (fetchEnvelopeItems (Some ''acct'') failing_client (Some ''FOO'') (Some ''site'')) = Items []"
    by blast+
  from fetchEnvelopeItems_empty_on_failure
    [of failing_client None "Some ''site''" "''acct''" "''forbidden''"] l
  have 3: "fst (fetchEnvelopeItems (Some ''acct'') failing_client None (Some ''site'')) = Items []"
    and 4: "fst (fetchEnvelopeItems (Some ''acct'') failing_client None (Some ''site'')) =
     fst (fetchEnvelopeItems (Some ''acct'')
            (failing_client\<lparr>getEnvVars := \<lambda>accountId siteId. Inr []\<rparr>) None (Some ''site''))"
    by blast+
  from 1 2 3 4 show ?thesis by blast
qed

section \<open>Env Resolver without an account identifier\<close>

lemma formatEnvelopeData_EmptyObject:
  "formatEnvelopeData context (Some EmptyObject) scope source = Inl TypeError"
  by (simp add: formatEnvelopeData_def or_default_def)

text \<open>
  Claim C9. When the site info has no \<open>account_slug\<close>, both fetches return the empty
  object, formatting the empty object raises a \<open>TypeError\<close> (it has no \<open>filter\<close>
  method), and the resolver ends with that fault: no mapping is returned.
\<close>

theorem getEnvelopeEnv_no_account_faults:
  "account_slug siteInfo = None \<Longrightarrow>
   fst (fetchEnvelopeItems (account_slug siteInfo) client (Some (or_default [] k)) None) = EmptyObject \<and>
   fst (fetchEnvelopeItems (account_slug siteInfo) client (Some (or_default [] k)) (site_id siteInfo))
     = EmptyObject \<and>
   formatEnvelopeData context (Some EmptyObject) scope ''account'' = Inl TypeError \<and>
   getEnvelopeEnv client context e k scope siteInfo = Inl TypeError"
  by (simp add: getEnvelopeEnv_def fetchEnvelopeItems_def formatEnvelopeData_EmptyObject Let_def)

text \<open>Claim C9, witness: a site without account and a local env with one general entry;
  the resolver does not return that entry.\<close>

theorem getEnvelopeEnv_no_account_faults_witness:
  "getEnvelopeEnv failing_client (Some ''dev'') [(''A'', legacy_var ''general'' ''1'')] None (Some ''any'')
     \<lparr>account_slug = None, site_id = Some ''site''\<rparr> = Inl TypeError \<and>
   getEnvelopeEnv failing_client (Some ''dev'') [(''A'', legacy_var ''general'' ''1'')] None (Some ''any'')
     \<lparr>account_slug = None, site_id = Some ''site''\<rparr> \<noteq> Inr [(''A'', legacy_var ''general'' ''1'')]"
  using getEnvelopeEnv_no_account_faults
    [of "\<lparr>account_slug = None, site_id = Some ''site''\<rparr>" failing_client None
        "Some ''dev''" "Some ''any''" "[(''A'', legacy_var ''general'' ''1'')]"]
  by simp

subsection \<open>Formatter\<close>

lemma findValueFromContext_first:
  "findValueFromContext vals ctx = Some val \<longleftrightarrow>
   (\<exists>i < length vals. vals ! i = val \<and>
      (ve_context val = ctx \<or> ve_context val = ''all'') \<and>
      (\<forall>j < i. ve_context (vals ! j) \<noteq> ctx \<and> ve_context (vals ! j) \<noteq> ''all''))"
  unfolding findValueFromContext_def find_Some_iff by auto


lemma format_step_entry:
  "format_step ctx source (Inr a) r =
     (case format_entry ctx source r of
        None \<Rightarrow> Inl TypeError | Some ent \<Rightarrow> Inr (obj_set a (key r) ent))"
  by (simp add: format_step_def format_entry_def split: option.splits)

lemma foldl_format_step:
  "\<forall>r \<in> set xs. format_entry ctx source r \<noteq> None \<Longrightarrow>
   foldl (format_step ctx source) (Inr acc) xs =
   Inr (foldl (\<lambda>a (k, v). obj_set a k v) acc
          (map (\<lambda>r. (key r, the (format_entry ctx source r))) xs))"
proof (induction xs arbitrary: acc)
  case Nil
  then show ?case by simp
next
  case (Cons r xs)
  from Cons.prems obtain ent where ent: "format_entry ctx source r = Some ent" by auto
  from Cons.prems have "\<forall>r \<in> set xs. format_entry ctx source r \<noteq> None" by simp
  from Cons.IH [OF this] show ?case by (simp add: format_step_entry ent)
qed


lemma distinct_map_sort_key:
  "distinct (map g xs) \<Longrightarrow> distinct (map g (sort_key f xs))"
proof -
  assume d: "distinct (map g xs)"
  have "mset (map g (sort_key f xs)) = mset (map g xs)" by simp
  from mset_eq_imp_distinct_iff [OF this] d show ?thesis by simp
qed



section \<open>Context/Scope Formatter: filtering, order and entries\<close>




subsection \<open>Resolver\<close>

subsection \<open>Resolver\<close>

lemma set_obj_set: "set (obj_set ob k v) \<subseteq> insert (k, v) (set ob)"
  by (induction ob) (auto split: if_splits)

lemma set_foldl_obj_set:
  "set (foldl (\<lambda>a (k, v). obj_set a k v) acc es) \<subseteq> set acc \<union> set es"
proof (induction es arbitrary: acc)
  case Nil
  then show ?case by simp
next
  case (Cons p es)
  obtain k v where p: "p = (k, v)" by (cases p)
  from Cons.IH [of "obj_set acc k v"] set_obj_set [of acc k v]
  show ?case by (auto simp: p)
qed

lemma distinct_foldl_obj_set:
  "distinct (map fst acc) \<Longrightarrow> distinct (map fst (foldl (\<lambda>a (k, v). obj_set a k v) acc es))"
  using distinct_spread [of acc es] by (simp add: spread_def)

lemma formatEnvelopeData_defaults:
  "formatEnvelopeData (Some (or_default ''dev'' c)) x (Some (or_default ''any'' s)) source =
   formatEnvelopeData c x s source"
  by (simp add: formatEnvelopeData_def or_default_def split: option.splits)

lemma format_entry_None: "format_entry ctx source r = None \<longleftrightarrow> findValueFromContext (item_values r) ctx = None"
  by (simp add: format_entry_def)

lemma sources_format_entry: "format_entry ctx source r = Some ent \<Longrightarrow> sources ent = [source]"
  by (auto simp: format_entry_def)

lemma formatEnvelopeData_total:
  "\<exists>m. formatEnvelopeData c (Some (Items its)) s source = Inr m \<and> distinct (map fst m) \<and>
       (\<forall>(n, v) \<in> set m. sources v = [source])"
proof -
  let ?ctx = "or_default ''dev'' c" and ?sc = "or_default ''any'' s"
  let ?xs = "array_sort compareKeys
               (filter (\<lambda>r. if ?sc = ''any'' then True else ?sc \<in> set (scopes r))
                 (filter (\<lambda>r. findValueFromContext (item_values r) ?ctx \<noteq> None) its))"
  let ?es = "map (\<lambda>r. (key r, the (format_entry ?ctx source r))) ?xs"
  let ?m = "foldl (\<lambda>a (k, v). obj_set a k v) [] ?es"
  have sub: "set ?xs \<subseteq> {r. findValueFromContext (item_values r) ?ctx \<noteq> None}"
    unfolding array_sort_compareKeys set_sort set_filter by blast
  then have ok: "\<forall>r \<in> set ?xs. format_entry ?ctx source r \<noteq> None"
    unfolding format_entry_None by blast
  have "formatEnvelopeData c (Some (Items its)) s source = foldl (format_step ?ctx source) (Inr []) ?xs"
    by (simp add: formatEnvelopeData_def Let_def or_default_def [of "Items []"] del: filter_filter)
  with foldl_format_step [OF ok, of "[]"]
  have res: "formatEnvelopeData c (Some (Items its)) s source = Inr ?m" by (simp only:)
  have d: "distinct (map fst ?m)" by (rule distinct_foldl_obj_set) simp
  have "\<And>n v. (n, v) \<in> set ?es \<Longrightarrow> sources v = [source]"
  proof -
    fix n v assume "(n, v) \<in> set ?es"
    then obtain r where r: "r \<in> set ?xs" and v: "v = the (format_entry ?ctx source r)"
      unfolding set_map by blast
    from ok r obtain ent where "format_entry ?ctx source r = Some ent" by blast
    with v sources_format_entry show "sources v = [source]" by simp
  qed
  moreover have "set ?m \<subseteq> set ?es" using set_foldl_obj_set [of "[]" ?es] by simp
  ultimately have "\<forall>(n, v) \<in> set ?m. sources v = [source]" by blast
  with res d show ?thesis by blast
qed

lemma fetchEnvelopeItems_Some:
  "\<exists>its. fst (fetchEnvelopeItems (Some a) client k siteId) = Items its"
  by (simp add: fetchEnvelopeItems_def split: sum.splits)

lemma getEnvelopeEnv_unfold:
  assumes "account_slug siteInfo = Some a"
  shows "\<exists>accountEnv siteEnv.
     formatEnvelopeData context
        (Some (fst (fetchEnvelopeItems (Some a) client (Some (or_default [] k)) None)))
        scope ''account'' = Inr accountEnv \<and>
     formatEnvelopeData context
        (Some (fst (fetchEnvelopeItems (Some a) client (Some (or_default [] k)) (site_id siteInfo))))
        scope ''ui'' = Inr siteEnv \<and>
     distinct (map fst accountEnv) \<and> distinct (map fst siteEnv) \<and>
     (\<forall>(n, v) \<in> set accountEnv. sources v = [''account'']) \<and>
     (\<forall>(n, v) \<in> set siteEnv. sources v = [''ui'']) \<and>
     getEnvelopeEnv client context e k scope siteInfo =
       Inr (spread (spread (spread (spread (spread [] (filterEnvBySource e ''general'')) accountEnv)
              (if included scope then filterEnvBySource e ''addons'' else []))
              siteEnv)
              (if included scope then filterEnvBySource e ''configFile'' else []))"
proof -
  obtain ai where ai: "fst (fetchEnvelopeItems (Some a) client (Some (or_default [] k)) None) = Items ai"
    using fetchEnvelopeItems_Some by blast
  obtain si where si: "fst (fetchEnvelopeItems (Some a) client (Some (or_default [] k)) (site_id siteInfo)) = Items si"
    using fetchEnvelopeItems_Some by blast
  obtain accountEnv where A: "formatEnvelopeData context (Some (Items ai)) scope ''account'' = Inr accountEnv"
    "distinct (map fst accountEnv)" "\<forall>(n, v) \<in> set accountEnv. sources v = [''account'']"
    using formatEnvelopeData_total [of "context" ai scope "''account''"] by blast
  obtain siteEnv where S: "formatEnvelopeData context (Some (Items si)) scope ''ui'' = Inr siteEnv"
    "distinct (map fst siteEnv)" "\<forall>(n, v) \<in> set siteEnv. sources v = [''ui'']"
    using formatEnvelopeData_total [of "context" si scope "''ui''"] by blast
  have G: "getEnvelopeEnv client context e k scope siteInfo =
       Inr (spread (spread (spread (spread (spread [] (filterEnvBySource e ''general'')) accountEnv)
              (if included scope then filterEnvBySource e ''addons'' else []))
              siteEnv)
              (if included scope then filterEnvBySource e ''configFile'' else []))"
    unfolding getEnvelopeEnv_def Let_def assms ai si formatEnvelopeData_defaults A(1) S(1)
    by (simp add: included_def includeConfigEnvVars_def)
  show ?thesis
    apply (rule exI [of _ accountEnv], rule exI [of _ siteEnv])
    unfolding ai si
    apply (intro conjI)
          apply (rule A(1))
         apply (rule S(1))
        apply (rule A(2))
       apply (rule S(2))
      apply (rule A(3))
     apply (rule S(3))
    apply (rule G)
    done
qed

lemma distinct_filterEnvBySource:
  "distinct (map fst e) \<Longrightarrow> distinct (map fst (filterEnvBySource e s))"
  by (simp add: filterEnvBySource_filter distinct_map_filter)

lemma spread_Nil [simp]: "spread a [] = a"
  by (simp add: spread_def)

section \<open>Env Resolver: precedence of the sources\<close>

text \<open>
  Claim C1. For a legacy flat env \<open>e\<close> (an object: distinct keys) and a site with an account,
  both formatter calls return mappings \<open>accountEnv\<close> and \<open>siteEnv\<close>, and the resolver returns
  a mapping \<open>m\<close> that is the right-biased merge of general, account, addons (when included),
  site and config-file entries (when included): a later source replaces the whole entry of
  an earlier one. The keys of \<open>m\<close> are the union of the keys of the included sources.
  Addons and config-file entries are included when the scope is \<open>any\<close>, \<open>builds\<close> or
  \<open>post_processing\<close>. (Without an account no mapping is returned, see C9.)
\<close>

theorem getEnvelopeEnv_precedence:
  assumes "distinct (map fst e)" and "account_slug siteInfo = Some a"
    and "inc = (or_default ''any'' scope \<in> {''any'', ''builds'', ''post_processing''})"
  shows "\<exists>accountEnv siteEnv m.
     formatEnvelopeData context
        (Some (fst (fetchEnvelopeItems (Some a) client (Some (or_default [] k)) None)))
        scope ''account'' = Inr accountEnv \<and>
     formatEnvelopeData context
        (Some (fst (fetchEnvelopeItems (Some a) client (Some (or_default [] k)) (site_id siteInfo))))
        scope ''ui'' = Inr siteEnv \<and>
     getEnvelopeEnv client context e k scope siteInfo = Inr m \<and>
     map_of m =
       map_of (filterEnvBySource e ''general'') ++ map_of accountEnv ++
       (if inc then map_of (filterEnvBySource e ''addons'') else Map.empty) ++
       map_of siteEnv ++
       (if inc then map_of (filterEnvBySource e ''configFile'') else Map.empty) \<and>
     fst ` set m =
       fst ` set (filterEnvBySource e ''general'') \<union> fst ` set accountEnv \<union>
       (if inc then fst ` set (filterEnvBySource e ''addons'') else {}) \<union>
       fst ` set siteEnv \<union>
       (if inc then fst ` set (filterEnvBySource e ''configFile'') else {}) \<and>
     distinct (map fst m)"
proof -
  from getEnvelopeEnv_unfold [OF assms(2), of "context" client k scope e]
  obtain accountEnv siteEnv where
    A: "formatEnvelopeData context
        (Some (fst (fetchEnvelopeItems (Some a) client (Some (or_default [] k)) None)))
        scope ''account'' = Inr accountEnv"
    and S: "formatEnvelopeData context
        (Some (fst (fetchEnvelopeItems (Some a) client (Some (or_default [] k)) (site_id siteInfo))))
        scope ''ui'' = Inr siteEnv"
    and dA: "distinct (map fst accountEnv)" and dS: "distinct (map fst siteEnv)"
    and G: "getEnvelopeEnv client context e k scope siteInfo =
       Inr (spread (spread (spread (spread (spread [] (filterEnvBySource e ''general'')) accountEnv)
              (if included scope then filterEnvBySource e ''addons'' else []))
              siteEnv)
              (if included scope then filterEnvBySource e ''configFile'' else []))"
    by blast
  let ?g = "filterEnvBySource e ''general''"
  let ?ad = "if inc then filterEnvBySource e ''addons'' else []"
  let ?cf = "if inc then filterEnvBySource e ''configFile'' else []"
  let ?m = "spread (spread (spread (spread (spread [] ?g) accountEnv) ?ad) siteEnv) ?cf"
  have inc: "included scope = inc" by (simp add: included_def assms(3))
  have G': "getEnvelopeEnv client context e k scope siteInfo = Inr ?m"
    unfolding G inc ..
  have dg: "distinct (map fst ?g)" by (rule distinct_filterEnvBySource [OF assms(1)])
  have dad: "distinct (map fst ?ad)" by (simp add: distinct_filterEnvBySource [OF assms(1)])
  have dcf: "distinct (map fst ?cf)" by (simp add: distinct_filterEnvBySource [OF assms(1)])
  have "map_of ?m = map_of ?g ++ map_of accountEnv ++ map_of ?ad ++ map_of siteEnv ++ map_of ?cf"
    by (simp only: map_of_spread [OF dcf] map_of_spread [OF dS] map_of_spread [OF dad]
        map_of_spread [OF dA] map_of_spread [OF dg] map_of.simps empty_map_add)
  then have M: "map_of ?m =
       map_of ?g ++ map_of accountEnv ++
       (if inc then map_of (filterEnvBySource e ''addons'') else Map.empty) ++
       map_of siteEnv ++
       (if inc then map_of (filterEnvBySource e ''configFile'') else Map.empty)"
    by (cases inc) simp_all
  have "fst ` set ?m = fst ` set ?g \<union> fst ` set accountEnv \<union> fst ` set ?ad \<union> fst ` set siteEnv
      \<union> fst ` set ?cf"
    by (simp only: keys_spread list.set image_empty Un_empty_left)
  then have K: "fst ` set ?m =
       fst ` set ?g \<union> fst ` set accountEnv \<union>
       (if inc then fst ` set (filterEnvBySource e ''addons'') else {}) \<union>
       fst ` set siteEnv \<union>
       (if inc then fst ` set (filterEnvBySource e ''configFile'') else {})"
    by (cases inc) simp_all
  have D: "distinct (map fst ?m)" by (intro distinct_spread) simp
  show ?thesis
    apply (rule exI [of _ accountEnv], rule exI [of _ siteEnv], rule exI [of _ ?m])
    apply (intro conjI)
         apply (rule A)
        apply (rule S)
       apply (rule G')
      apply (rule M)
     apply (rule K)
    apply (rule D)
    done
qed

lemma resolver_example:
  "getEnvelopeEnv example_client (Some ''dev'') [(''A'', legacy_var ''general'' ''1'')] None None
     example_site =
   Inr [(''A'', \<lparr>var_context = Some ''dev'', var_scopes = Some [''builds'', ''functions''],
                  sources = [''ui''], var_value = ''3''\<rparr>)]"
  by code_simp

text \<open>Claim C1, witness: general \<open>A = 1\<close>, account \<open>A = 2\<close>, site \<open>A = 3\<close> resolve to the
  site's entry \<open>A = 3\<close>.\<close>

theorem getEnvelopeEnv_precedence_witness:
  "getEnvelopeEnv example_client (Some ''dev'') [(''A'', legacy_var ''general'' ''1'')] None None
     example_site =
   Inr [(''A'', \<lparr>var_context = Some ''dev'', var_scopes = Some [''builds'', ''functions''],
                  sources = [''ui''], var_value = ''3''\<rparr>)] \<and>
   (\<exists>accountEnv siteEnv m.
     formatEnvelopeData (Some ''dev'')
        (Some (fst (fetchEnvelopeItems (Some ''acct'') example_client (Some (or_default [] None)) None)))
        None ''account'' = Inr accountEnv \<and>
     formatEnvelopeData (Some ''dev'')
        (Some (fst (fetchEnvelopeItems (Some ''acct'') example_client (Some (or_default [] None))
                 (site_id example_site))))
        None ''ui'' = Inr siteEnv \<and>
     getEnvelopeEnv example_client (Some ''dev'') [(''A'', legacy_var ''general'' ''1'')] None None
       example_site = Inr m \<and>
     map_of m =
       map_of (filterEnvBySource [(''A'', legacy_var ''general'' ''1'')] ''general'') ++
       map_of accountEnv ++
       map_of (filterEnvBySource [(''A'', legacy_var ''general'' ''1'')] ''addons'') ++
       map_of siteEnv ++
       map_of (filterEnvBySource [(''A'', legacy_var ''general'' ''1'')] ''configFile'') \<and>
     fst ` set m =
       fst ` set (filterEnvBySource [(''A'', legacy_var ''general'' ''1'')] ''general'') \<union>
       fst ` set accountEnv \<union>
       fst ` set (filterEnvBySource [(''A'', legacy_var ''general'' ''1'')] ''addons'') \<union>
       fst ` set siteEnv \<union>
       fst ` set (filterEnvBySource [(''A'', legacy_var ''general'' ''1'')] ''configFile'') \<and>
     distinct (map fst m))"
proof -
  have d: "distinct (map fst [(''A'', legacy_var ''general'' ''1'')])" by simp
  have a: "account_slug example_site = Some ''acct''" by (simp add: example_site_def)
  have i: "True = (or_default ''any'' None \<in> {''any'', ''builds'', ''post_processing''})"
    by (simp add: or_default_def)
  note th = getEnvelopeEnv_precedence [OF d a i, of "Some ''dev''" example_client None]
  show ?thesis using resolver_example th [unfolded if_True] by (rule conjI)
qed

lemma getEnvelopeEnv_without_account:
  "account_slug siteInfo = None \<Longrightarrow>
   getEnvelopeEnv client context e k scope siteInfo = Inl TypeError"
  by (simp add: getEnvelopeEnv_def fetchEnvelopeItems_def formatEnvelopeData_EmptyObject Let_def)

lemma getEnvelopeEnv_merge:
  assumes "distinct (map fst e)"
    and "getEnvelopeEnv client context e k scope siteInfo = Inr m"
  shows "\<exists>a accountEnv siteEnv. account_slug siteInfo = Some a \<and>
     formatEnvelopeData context
        (Some (fst (fetchEnvelopeItems (Some a) client (Some (or_default [] k)) None)))
        scope ''account'' = Inr accountEnv \<and>
     formatEnvelopeData context
        (Some (fst (fetchEnvelopeItems (Some a) client (Some (or_default [] k)) (site_id siteInfo))))
        scope ''ui'' = Inr siteEnv \<and>
     distinct (map fst accountEnv) \<and> distinct (map fst siteEnv) \<and>
     (\<forall>(n, v) \<in> set accountEnv. sources v = [''account'']) \<and>
     (\<forall>(n, v) \<in> set siteEnv. sources v = [''ui'']) \<and>
     distinct (map fst m) \<and>
     map_of m =
       map_of (filterEnvBySource e ''general'') ++ map_of accountEnv ++
       map_of (if included scope then filterEnvBySource e ''addons'' else []) ++
       map_of siteEnv ++
       map_of (if included scope then filterEnvBySource e ''configFile'' else [])"
proof -
  from assms(2) getEnvelopeEnv_without_account [of siteInfo client "context" e k scope]
  obtain a where a: "account_slug siteInfo = Some a" by (cases "account_slug siteInfo") auto
  from getEnvelopeEnv_unfold [OF a, of "context" client k scope e]
  obtain accountEnv siteEnv where
    A: "formatEnvelopeData context
        (Some (fst (fetchEnvelopeItems (Some a) client (Some (or_default [] k)) None)))
        scope ''account'' = Inr accountEnv"
    and S: "formatEnvelopeData context
        (Some (fst (fetchEnvelopeItems (Some a) client (Some (or_default [] k)) (site_id siteInfo))))
        scope ''ui'' = Inr siteEnv"
    and dA: "distinct (map fst accountEnv)" and dS: "distinct (map fst siteEnv)"
    and sA: "\<forall>(n, v) \<in> set accountEnv. sources v = [''account'']"
    and sS: "\<forall>(n, v) \<in> set siteEnv. sources v = [''ui'']"
    and G: "getEnvelopeEnv client context e k scope siteInfo =
       Inr (spread (spread (spread (spread (spread [] (filterEnvBySource e ''general'')) accountEnv)
              (if included scope then filterEnvBySource e ''addons'' else []))
              siteEnv)
              (if included scope then filterEnvBySource e ''configFile'' else []))"
    by blast
  let ?g = "filterEnvBySource e ''general''"
  let ?ad = "if included scope then filterEnvBySource e ''addons'' else []"
  let ?cf = "if included scope then filterEnvBySource e ''configFile'' else []"
  let ?m = "spread (spread (spread (spread (spread [] ?g) accountEnv) ?ad) siteEnv) ?cf"
  from G assms(2) have m: "m = ?m" by simp
  have dg: "distinct (map fst ?g)" by (rule distinct_filterEnvBySource [OF assms(1)])
  have dad: "distinct (map fst ?ad)" by (simp add: distinct_filterEnvBySource [OF assms(1)])
  have dcf: "distinct (map fst ?cf)" by (simp add: distinct_filterEnvBySource [OF assms(1)])
  have M: "map_of m = map_of ?g ++ map_of accountEnv ++ map_of ?ad ++ map_of siteEnv ++ map_of ?cf"
    unfolding m
    by (simp only: map_of_spread [OF dcf] map_of_spread [OF dS] map_of_spread [OF dad]
        map_of_spread [OF dA] map_of_spread [OF dg] map_of.simps empty_map_add)
  have D: "distinct (map fst m)" unfolding m by (intro distinct_spread) simp
  show ?thesis
    apply (rule exI [of _ a], rule exI [of _ accountEnv], rule exI [of _ siteEnv])
    apply (intro conjI)
            apply (rule a)
           apply (rule A)
          apply (rule S)
         apply (rule dA)
        apply (rule dS)
       apply (rule sA)
      apply (rule sS)
     apply (rule D)
    apply (rule M)
    done
qed

lemma map_of_filterEnvBySource:
  assumes "distinct (map fst e)"
  shows "map_of (filterEnvBySource e s) n = Some v \<longleftrightarrow>
         (n, v) \<in> set e \<and> (\<exists>rest. sources v = s # rest)"
proof -
  have "map_of (filterEnvBySource e s) n = Some v \<longleftrightarrow> (n, v) \<in> set (filterEnvBySource e s)"
    by (rule map_of_eq_Some_iff [OF distinct_filterEnvBySource [OF assms]])
  then show ?thesis
    by (simp add: set_filterEnvBySource [OF assms] first_source_is_iff)
qed

lemma map_of_filterEnvBySource_None:
  assumes "distinct (map fst e)" and "(n, v) \<in> set e" and "\<not> (\<exists>rest. sources v = s # rest)"
  shows "map_of (filterEnvBySource e s) n = None"
proof (rule ccontr)
  assume "map_of (filterEnvBySource e s) n \<noteq> None"
  then obtain u where u: "map_of (filterEnvBySource e s) n = Some u" by blast
  then have "(n, u) \<in> set e" and su: "\<exists>rest. sources u = s # rest"
    by (simp_all add: map_of_filterEnvBySource [OF assms(1)])
  with assms(1,2) have "u = v" by (meson eq_key_imp_eq_value)
  with su assms(3) show False by simp
qed

lemma included_iff:
  "included scope \<longleftrightarrow> or_default ''any'' scope \<in> {''any'', ''builds'', ''post_processing''}"
  by (simp add: included_def)

lemma map_of_sources:
  "\<forall>(n, v) \<in> set ob. sources v = ss \<Longrightarrow> map_of ob n = Some u \<Longrightarrow> sources u = ss"
  by (auto dest: map_of_SomeD)

section \<open>Env Resolver: which scopes see addons and config-file entries\<close>

text \<open>
  Claim C2. Let the resolver return the mapping \<open>m\<close> for a legacy flat env \<open>e\<close> (an object:
  distinct keys). If the requested scope (\<open>any\<close> by default) is \<open>any\<close>, \<open>builds\<close> or
  \<open>post_processing\<close>, every entry of \<open>e\<close> whose first source is \<open>configFile\<close> is in \<open>m\<close>, and
  every entry whose first source is \<open>addons\<close> is in \<open>m\<close> unless the site-level (\<open>ui\<close>) entry of
  the same name has replaced it, as the precedence order demands. For every other scope,
  \<open>functions\<close> and \<open>runtime\<close> among them, no entry of \<open>m\<close> has \<open>addons\<close> or \<open>configFile\<close> as
  its first source.
\<close>

theorem getEnvelopeEnv_scope_inclusion:
  assumes "distinct (map fst e)"
    and "getEnvelopeEnv client context e k scope siteInfo = Inr m"
  shows "if or_default ''any'' scope \<in> {''any'', ''builds'', ''post_processing''}
     then (\<forall>(n, v) \<in> set e.
             ((\<exists>rest. sources v = ''configFile'' # rest) \<longrightarrow> (n, v) \<in> set m) \<and>
             ((\<exists>rest. sources v = ''addons'' # rest) \<longrightarrow>
                 (n, v) \<in> set m \<or> (\<exists>u. (n, u) \<in> set m \<and> sources u = [''ui''])))
     else (\<forall>(n, v) \<in> set m.
             \<not> (\<exists>rest. sources v = ''addons'' # rest) \<and>
             \<not> (\<exists>rest. sources v = ''configFile'' # rest))"
proof -
  from getEnvelopeEnv_merge [OF assms]
  obtain accountEnv siteEnv where
    sA: "\<forall>(n, v) \<in> set accountEnv. sources v = [''account'']"
    and sS: "\<forall>(n, v) \<in> set siteEnv. sources v = [''ui'']"
    and D: "distinct (map fst m)"
    and M: "map_of m =
       map_of (filterEnvBySource e ''general'') ++ map_of accountEnv ++
       map_of (if included scope then filterEnvBySource e ''addons'' else []) ++
       map_of siteEnv ++
       map_of (if included scope then filterEnvBySource e ''configFile'' else [])"
    by blast
  note mem = map_of_eq_Some_iff [OF D]
  show ?thesis
  proof (cases "included scope")
    case True
    have cf: "(n, v) \<in> set m" if "(n, v) \<in> set e" "\<exists>rest. sources v = ''configFile'' # rest" for n v
    proof -
      from that have "map_of (filterEnvBySource e ''configFile'') n = Some v"
        by (simp add: map_of_filterEnvBySource [OF assms(1)])
      then have "map_of m n = Some v" by (simp add: M True)
      then show ?thesis by (simp add: mem)
    qed
    have ad: "(n, v) \<in> set m \<or> (\<exists>u. (n, u) \<in> set m \<and> sources u = [''ui''])"
      if nv: "(n, v) \<in> set e" and src: "\<exists>rest. sources v = ''addons'' # rest" for n v
    proof -
      from src have "\<not> (\<exists>rest. sources v = ''configFile'' # rest)" by auto
      from map_of_filterEnvBySource_None [OF assms(1) nv this]
      have c: "map_of (filterEnvBySource e ''configFile'') n = None" .
      from nv src have a: "map_of (filterEnvBySource e ''addons'') n = Some v"
        by (simp add: map_of_filterEnvBySource [OF assms(1)])
      show ?thesis
      proof (cases "map_of siteEnv n")
        case None
        with a c have "map_of m n = Some v" by (simp add: M True map_add_Some_iff)
        then show ?thesis by (simp add: mem)
      next
        case (Some u)
        with c have "map_of m n = Some u" by (simp add: M True map_add_Some_iff)
        moreover from sS Some have "sources u = [''ui'']" by (rule map_of_sources)
        ultimately show ?thesis by (auto simp: mem)
      qed
    qed
    from cf ad True show ?thesis unfolding included_iff by (simp only: if_True) blast
  next
    case False
    have "\<not> (\<exists>rest. sources v = ''addons'' # rest) \<and> \<not> (\<exists>rest. sources v = ''configFile'' # rest)"
      if "(n, v) \<in> set m" for n v
    proof -
      from that have "map_of m n = Some v" by (simp add: mem)
      then consider "map_of siteEnv n = Some v" | "map_of accountEnv n = Some v"
        | "map_of (filterEnvBySource e ''general'') n = Some v"
        by (auto simp: M False map_add_Some_iff)
      then show ?thesis
      proof cases
        case 1
        with sS have "sources v = [''ui'']" by (rule map_of_sources)
        then show ?thesis by simp
      next
        case 2
        with sA have "sources v = [''account'']" by (rule map_of_sources)
        then show ?thesis by simp
      next
        case 3
        then have "\<exists>rest. sources v = ''general'' # rest"
          by (simp add: map_of_filterEnvBySource [OF assms(1)])
        then show ?thesis by auto
      qed
    qed
    with False show ?thesis unfolding included_iff by (simp only: if_False) blast
  qed
qed

lemma formatEnvelopeData_keys:
  assumes "formatEnvelopeData c (Some (Items its)) s source = Inr m"
  shows "fst ` set m \<subseteq> key ` set its"
proof -
  let ?ctx = "or_default ''dev'' c" and ?sc = "or_default ''any'' s"
  let ?xs = "array_sort compareKeys
               (filter (\<lambda>r. if ?sc = ''any'' then True else ?sc \<in> set (scopes r))
                 (filter (\<lambda>r. findValueFromContext (item_values r) ?ctx \<noteq> None) its))"
  let ?es = "map (\<lambda>r. (key r, the (format_entry ?ctx source r))) ?xs"
  let ?m = "foldl (\<lambda>a (k, v). obj_set a k v) [] ?es"
  have sub: "set ?xs \<subseteq> {r. findValueFromContext (item_values r) ?ctx \<noteq> None}"
    unfolding array_sort_compareKeys set_sort set_filter by blast
  then have ok: "\<forall>r \<in> set ?xs. format_entry ?ctx source r \<noteq> None"
    unfolding format_entry_None by blast
  have "formatEnvelopeData c (Some (Items its)) s source = foldl (format_step ?ctx source) (Inr []) ?xs"
    by (simp add: formatEnvelopeData_def Let_def or_default_def [of "Items []"] del: filter_filter)
  with foldl_format_step [OF ok, of "[]"]
  have "formatEnvelopeData c (Some (Items its)) s source = Inr ?m" by (simp only:)
  with assms have m: "m = ?m" by simp
  have "set ?xs \<subseteq> set its"
    unfolding array_sort_compareKeys set_sort set_filter by blast
  moreover have "fst ` set ?es = key ` set ?xs" by (simp only: set_map image_image fst_conv)
  ultimately have "fst ` set ?es \<subseteq> key ` set its" by blast
  moreover have "set ?m \<subseteq> set ?es" using set_foldl_obj_set [of "[]" ?es] by simp
  ultimately show ?thesis unfolding m by blast
qed

lemma fetchEnvelopeItems_key:
  "truthy ky \<Longrightarrow>
   fst (fetchEnvelopeItems (Some a) client (Some ky) siteId) =
     Items (case getEnvVar client a ky siteId of Inr item \<Rightarrow> [item] | Inl _ \<Rightarrow> [])"
  by (simp add: fetchEnvelopeItems_def or_default_def split: sum.splits)

lemma formatted_single_key:
  assumes "truthy ky"
    and "formatEnvelopeData c (Some (fst (fetchEnvelopeItems (Some a) client (Some ky) siteId))) s source
           = Inr ob"
    and "(n, u) \<in> set ob"
  shows "\<exists>item. getEnvVar client a ky siteId = Inr item \<and> key item = n"
proof -
  from assms(2) have "fst ` set ob \<subseteq>
      key ` set (case getEnvVar client a ky siteId of Inr item \<Rightarrow> [item] | Inl _ \<Rightarrow> [])"
    unfolding fetchEnvelopeItems_key [OF assms(1)] by (rule formatEnvelopeData_keys)
  with assms(3) have "n \<in> key ` set (case getEnvVar client a ky siteId of Inr item \<Rightarrow> [item] | Inl _ \<Rightarrow> [])"
    by force
  then show ?thesis by (cases "getEnvVar client a ky siteId") auto
qed

section \<open>Env Resolver: the single-key filter\<close>

text \<open>
  Claim C10. Let the resolver return the mapping \<open>m\<close> when called with a non-empty key.
  Whatever their names, the entries of the legacy flat env \<open>e\<close> are merged as without a key:
  a general entry is in \<open>m\<close> unless an account or site entry of the same name has replaced
  it, and for an including scope a config-file entry is in \<open>m\<close> and an addons entry is in
  \<open>m\<close> unless the site entry of the same name has replaced it. Only the remote entries are
  restricted: an entry of \<open>m\<close> with sources \<open>[account]\<close> or \<open>[ui]\<close> is under the key of the one
  record that \<open>getEnvVar\<close> returned for the requested key.
\<close>

theorem getEnvelopeEnv_key_filters_remote_only:
  assumes "distinct (map fst e)"
    and "getEnvelopeEnv client context e k scope siteInfo = Inr m"
    and "truthy (or_default [] k)"
  shows "(\<forall>(n, v) \<in> set e.
           ((\<exists>rest. sources v = ''general'' # rest) \<longrightarrow>
              (n, v) \<in> set m \<or>
              (\<exists>u. (n, u) \<in> set m \<and> (sources u = [''account''] \<or> sources u = [''ui'']))) \<and>
           (or_default ''any'' scope \<in> {''any'', ''builds'', ''post_processing''} \<longrightarrow>
              ((\<exists>rest. sources v = ''configFile'' # rest) \<longrightarrow> (n, v) \<in> set m) \<and>
              ((\<exists>rest. sources v = ''addons'' # rest) \<longrightarrow>
                 (n, v) \<in> set m \<or> (\<exists>u. (n, u) \<in> set m \<and> sources u = [''ui''])))) \<and>
         (\<exists>a. account_slug siteInfo = Some a \<and>
            (\<forall>(n, u) \<in> set m.
               (sources u = [''account''] \<longrightarrow>
                  (\<exists>item. getEnvVar client a (or_default [] k) None = Inr item \<and> key item = n)) \<and>
               (sources u = [''ui''] \<longrightarrow>
                  (\<exists>item. getEnvVar client a (or_default [] k) (site_id siteInfo) = Inr item \<and>
                          key item = n))))"
    (is "?L \<and> (\<exists>a. _ \<and> ?R a)")
proof -
  from getEnvelopeEnv_merge [OF assms(1,2)]
  obtain a accountEnv siteEnv where a: "account_slug siteInfo = Some a"
    and A: "formatEnvelopeData context
        (Some (fst (fetchEnvelopeItems (Some a) client (Some (or_default [] k)) None)))
        scope ''account'' = Inr accountEnv"
    and S: "formatEnvelopeData context
        (Some (fst (fetchEnvelopeItems (Some a) client (Some (or_default [] k)) (site_id siteInfo))))
        scope ''ui'' = Inr siteEnv"
    and dA: "distinct (map fst accountEnv)" and dS: "distinct (map fst siteEnv)"
    and sA: "\<forall>(n, v) \<in> set accountEnv. sources v = [''account'']"
    and sS: "\<forall>(n, v) \<in> set siteEnv. sources v = [''ui'']"
    and D: "distinct (map fst m)"
    and M: "map_of m =
       map_of (filterEnvBySource e ''general'') ++ map_of accountEnv ++
       map_of (if included scope then filterEnvBySource e ''addons'' else []) ++
       map_of siteEnv ++
       map_of (if included scope then filterEnvBySource e ''configFile'' else [])"
    by blast
  note mem = map_of_eq_Some_iff [OF D]
  let ?ad = "if included scope then filterEnvBySource e ''addons'' else []"
  let ?cf = "if included scope then filterEnvBySource e ''configFile'' else []"
  have noad: "map_of ?ad n = None" if "(n, v) \<in> set e" "\<not> (\<exists>rest. sources v = ''addons'' # rest)" for n v
    using map_of_filterEnvBySource_None [OF assms(1) that] by simp
  have nocf: "map_of ?cf n = None" if "(n, v) \<in> set e" "\<not> (\<exists>rest. sources v = ''configFile'' # rest)" for n v
    using map_of_filterEnvBySource_None [OF assms(1) that] by simp
  have gen: "(n, v) \<in> set m \<or>
      (\<exists>u. (n, u) \<in> set m \<and> (sources u = [''account''] \<or> sources u = [''ui'']))"
    if nv: "(n, v) \<in> set e" and src: "\<exists>rest. sources v = ''general'' # rest" for n v
  proof -
    from src have "\<not> (\<exists>rest. sources v = ''addons'' # rest)"
      and "\<not> (\<exists>rest. sources v = ''configFile'' # rest)" by auto
    with nv have ad: "map_of ?ad n = None" and cf: "map_of ?cf n = None"
      using noad nocf by blast+
    from nv src have g: "map_of (filterEnvBySource e ''general'') n = Some v"
      by (simp add: map_of_filterEnvBySource [OF assms(1)])
    show ?thesis
    proof (cases "map_of siteEnv n")
      case (Some u)
      with cf have "map_of m n = Some u" by (simp add: M map_add_Some_iff)
      moreover from sS Some have "sources u = [''ui'']" by (rule map_of_sources)
      ultimately show ?thesis by (auto simp: mem)
    next
      case None
      show ?thesis
      proof (cases "map_of accountEnv n")
        case (Some u)
        with cf ad None have "map_of m n = Some u" by (simp add: M map_add_Some_iff)
        moreover from sA Some have "sources u = [''account'']" by (rule map_of_sources)
        ultimately show ?thesis by (auto simp: mem)
      next
        case N2: None
        with cf ad None g have "map_of m n = Some v" by (simp add: M map_add_Some_iff)
        then show ?thesis by (simp add: mem)
      qed
    qed
  qed
  have cfg: "(n, v) \<in> set m"
    if "included scope" "(n, v) \<in> set e" "\<exists>rest. sources v = ''configFile'' # rest" for n v
  proof -
    from that have "map_of (filterEnvBySource e ''configFile'') n = Some v"
      by (simp add: map_of_filterEnvBySource [OF assms(1)])
    then have "map_of m n = Some v" by (simp add: M that(1))
    then show ?thesis by (simp add: mem)
  qed
  have add: "(n, v) \<in> set m \<or> (\<exists>u. (n, u) \<in> set m \<and> sources u = [''ui''])"
    if inc: "included scope" and nv: "(n, v) \<in> set e"
      and src: "\<exists>rest. sources v = ''addons'' # rest" for n v
  proof -
    from src have "\<not> (\<exists>rest. sources v = ''configFile'' # rest)" by auto
    with nv have c: "map_of ?cf n = None" using nocf by blast
    from nv src have a: "map_of ?ad n = Some v"
      by (simp add: inc map_of_filterEnvBySource [OF assms(1)])
    show ?thesis
    proof (cases "map_of siteEnv n")
      case None
      with a c have "map_of m n = Some v" by (simp add: M map_add_Some_iff)
      then show ?thesis by (simp add: mem)
    next
      case (Some u)
      with c have "map_of m n = Some u" by (simp add: M map_add_Some_iff)
      moreover from sS Some have "sources u = [''ui'']" by (rule map_of_sources)
      ultimately show ?thesis by (auto simp: mem)
    qed
  qed
  have local: "case nv of (n, v) \<Rightarrow>
           ((\<exists>rest. sources v = ''general'' # rest) \<longrightarrow>
              (n, v) \<in> set m \<or>
              (\<exists>u. (n, u) \<in> set m \<and> (sources u = [''account''] \<or> sources u = [''ui'']))) \<and>
           (or_default ''any'' scope \<in> {''any'', ''builds'', ''post_processing''} \<longrightarrow>
              ((\<exists>rest. sources v = ''configFile'' # rest) \<longrightarrow> (n, v) \<in> set m) \<and>
              ((\<exists>rest. sources v = ''addons'' # rest) \<longrightarrow>
                 (n, v) \<in> set m \<or> (\<exists>u. (n, u) \<in> set m \<and> sources u = [''ui''])))"
    if "nv \<in> set e" for nv
  proof (cases nv)
    case (Pair n v)
    with that have nv: "(n, v) \<in> set e" by simp
    show ?thesis
      unfolding Pair prod.case included_iff [symmetric]
    proof (intro conjI impI)
      assume "\<exists>rest. sources v = ''general'' # rest"
      with nv show "(n, v) \<in> set m \<or>
        (\<exists>u. (n, u) \<in> set m \<and> (sources u = [''account''] \<or> sources u = [''ui'']))"
        by (rule gen)
    next
      assume "included scope" "\<exists>rest. sources v = ''configFile'' # rest"
      with nv show "(n, v) \<in> set m" using cfg by blast
    next
      assume "included scope" "\<exists>rest. sources v = ''addons'' # rest"
      with nv show "(n, v) \<in> set m \<or> (\<exists>u. (n, u) \<in> set m \<and> sources u = [''ui''])"
        using add by blast
    qed
  qed
  have origin: "map_of accountEnv n = Some u \<and> sources u = [''account''] \<or>
                map_of siteEnv n = Some u \<and> sources u = [''ui''] \<or>
                (\<exists>t rest. sources u = t # rest \<and> t \<in> {''general'', ''addons'', ''configFile''})"
    if "(n, u) \<in> set m" for n u
  proof -
    from that have "map_of m n = Some u" by (simp add: mem)
    then have "map_of ?cf n = Some u \<or> map_of siteEnv n = Some u \<or> map_of ?ad n = Some u
      \<or> map_of accountEnv n = Some u \<or> map_of (filterEnvBySource e ''general'') n = Some u"
      by (simp only: M map_add_Some_iff) blast
    then consider "map_of ?cf n = Some u" | "map_of siteEnv n = Some u" | "map_of ?ad n = Some u"
      | "map_of accountEnv n = Some u" | "map_of (filterEnvBySource e ''general'') n = Some u"
      by blast
    then show ?thesis
    proof cases
      case 1
      then have "\<exists>rest. sources u = ''configFile'' # rest"
        by (cases "included scope") (simp_all add: map_of_filterEnvBySource [OF assms(1)])
      then show ?thesis by auto
    next
      case 2
      from sS 2 have "sources u = [''ui'']" by (rule map_of_sources)
      with 2 show ?thesis by simp
    next
      case 3
      then have "\<exists>rest. sources u = ''addons'' # rest"
        by (cases "included scope") (simp_all add: map_of_filterEnvBySource [OF assms(1)])
      then show ?thesis by auto
    next
      case 4
      from sA 4 have "sources u = [''account'']" by (rule map_of_sources)
      with 4 show ?thesis by simp
    next
      case 5
      then have "\<exists>rest. sources u = ''general'' # rest"
        by (simp add: map_of_filterEnvBySource [OF assms(1)])
      then show ?thesis by auto
    qed
  qed
  have remote: "case nu of (n, u) \<Rightarrow>
               (sources u = [''account''] \<longrightarrow>
                  (\<exists>item. getEnvVar client a (or_default [] k) None = Inr item \<and> key item = n)) \<and>
               (sources u = [''ui''] \<longrightarrow>
                  (\<exists>item. getEnvVar client a (or_default [] k) (site_id siteInfo) = Inr item \<and>
                          key item = n))" if "nu \<in> set m" for nu
  proof (cases nu)
    case (Pair n u)
    with that have nu: "(n, u) \<in> set m" by simp
    show ?thesis
      unfolding Pair prod.case
    proof (intro conjI impI)
      assume s: "sources u = [''account'']"
      with origin [OF nu] have "map_of accountEnv n = Some u" by auto
      then have "(n, u) \<in> set accountEnv" by (rule map_of_SomeD)
      from formatted_single_key [OF assms(3) A this]
      show "\<exists>item. getEnvVar client a (or_default [] k) None = Inr item \<and> key item = n" .
    next
      assume s: "sources u = [''ui'']"
      with origin [OF nu] have "map_of siteEnv n = Some u" by auto
      then have "(n, u) \<in> set siteEnv" by (rule map_of_SomeD)
      from formatted_single_key [OF assms(3) S this]
      show "\<exists>item. getEnvVar client a (or_default [] k) (site_id siteInfo) = Inr item \<and> key item = n" .
    qed
  qed
  have L: ?L by (rule ballI) (rule local)
  have R: "?R a" by (rule ballI) (rule remote)
  from a R have "\<exists>a. account_slug siteInfo = Some a \<and> ?R a" by (intro exI conjI)
  with L show ?thesis by (rule conjI)
qed

lemma resolver_functions_example:
  "getEnvelopeEnv example_client (Some ''dev'') local_env None (Some ''functions'') example_site =
     Inr [(''G'', legacy_var ''general'' ''1''), (''A'', site_entry)]"
  by code_simp

lemma resolver_any_example:
  "getEnvelopeEnv example_client (Some ''dev'') local_env None (Some ''any'') example_site =
     Inr [(''G'', legacy_var ''general'' ''1''), (''A'', site_entry),
          (''D'', legacy_var ''addons'' ''3''), (''C'', legacy_var ''configFile'' ''5'')]"
  by code_simp

lemma resolver_key_example:
  "getEnvelopeEnv example_client (Some ''dev'') local_env (Some ''A'') (Some ''any'') example_site =
     Inr [(''G'', legacy_var ''general'' ''1''), (''A'', site_entry),
          (''D'', legacy_var ''addons'' ''3''), (''C'', legacy_var ''configFile'' ''5'')]"
  by code_simp

lemma distinct_local_env: "distinct (map fst local_env)"
  by (simp add: local_env_def)

text \<open>Claim C2, witness: with scope \<open>functions\<close> the addons entry \<open>D\<close> and the config-file
  entry \<open>C\<close> of the local env are absent from the result; with scope \<open>any\<close> they are
  present.\<close>

theorem getEnvelopeEnv_scope_inclusion_witness:
  "getEnvelopeEnv example_client (Some ''dev'') local_env None (Some ''functions'') example_site =
     Inr [(''G'', legacy_var ''general'' ''1''), (''A'', site_entry)] \<and>
   list_all (\<lambda>(n, v). \<not> (\<exists>rest. sources v = ''addons'' # rest) \<and>
                      \<not> (\<exists>rest. sources v = ''configFile'' # rest))
     [(''G'', legacy_var ''general'' ''1''), (''A'', site_entry)] \<and>
   getEnvelopeEnv example_client (Some ''dev'') local_env None (Some ''any'') example_site =
     Inr [(''G'', legacy_var ''general'' ''1''), (''A'', site_entry),
          (''D'', legacy_var ''addons'' ''3''), (''C'', legacy_var ''configFile'' ''5'')] \<and>
   (''C'', legacy_var ''configFile'' ''5'') \<in>
     set [(''G'', legacy_var ''general'' ''1''), (''A'', site_entry),
          (''D'', legacy_var ''addons'' ''3''), (''C'', legacy_var ''configFile'' ''5'')]"
proof -
  have f: "\<not> or_default ''any'' (Some ''functions'') \<in> {''any'', ''builds'', ''post_processing''}"
    by (simp add: or_default_def)
  have a: "or_default ''any'' (Some ''any'') \<in> {''any'', ''builds'', ''post_processing''}"
    by (simp add: or_default_def)
  from getEnvelopeEnv_scope_inclusion [OF distinct_local_env resolver_functions_example]
  have 1: "list_all (\<lambda>(n, v). \<not> (\<exists>rest. sources v = ''addons'' # rest) \<and>
                      \<not> (\<exists>rest. sources v = ''configFile'' # rest))
     [(''G'', legacy_var ''general'' ''1''), (''A'', site_entry)]"
    unfolding if_not_P [OF f] list_all_iff .
  from getEnvelopeEnv_scope_inclusion [OF distinct_local_env resolver_any_example]
  have B: "\<forall>(n, v) \<in> set local_env.
             ((\<exists>rest. sources v = ''configFile'' # rest) \<longrightarrow> (n, v) \<in>
     set [(''G'', legacy_var ''general'' ''1''), (''A'', site_entry),
          (''D'', legacy_var ''addons'' ''3''), (''C'', legacy_var ''configFile'' ''5'')]) \<and>
             ((\<exists>rest. sources v = ''addons'' # rest) \<longrightarrow>
                 (n, v) \<in> set [(''G'', legacy_var ''general'' ''1''), (''A'', site_entry),
          (''D'', legacy_var ''addons'' ''3''), (''C'', legacy_var ''configFile'' ''5'')] \<or> (\<exists>u. (n, u) \<in> set [(''G'', legacy_var ''general'' ''1''), (''A'', site_entry),
          (''D'', legacy_var ''addons'' ''3''), (''C'', legacy_var ''configFile'' ''5'')] \<and> sources u = [''ui'']))"
    unfolding if_P [OF a] .
  have "(''C'', legacy_var ''configFile'' ''5'') \<in> set local_env" by (simp add: local_env_def)
  from bspec [OF B this] have 2: "(''C'', legacy_var ''configFile'' ''5'') \<in>
     set [(''G'', legacy_var ''general'' ''1''), (''A'', site_entry),
          (''D'', legacy_var ''addons'' ''3''), (''C'', legacy_var ''configFile'' ''5'')]"
    by (simp add: legacy_var_def)
  from resolver_functions_example 1 resolver_any_example 2 show ?thesis by (intro conjI)
qed

text \<open>Claim C10, witness: with the key \<open>A\<close> requested, the config-file entry \<open>C\<close> of the
  local env is in the result.\<close>

theorem getEnvelopeEnv_key_filters_remote_only_witness:
  "truthy (or_default [] (Some ''A'')) \<and>
   getEnvelopeEnv example_client (Some ''dev'') local_env (Some ''A'') (Some ''any'') example_site =
     Inr [(''G'', legacy_var ''general'' ''1''), (''A'', site_entry),
          (''D'', legacy_var ''addons'' ''3''), (''C'', legacy_var ''configFile'' ''5'')] \<and>
   (''C'', legacy_var ''configFile'' ''5'') \<in>
     set [(''G'', legacy_var ''general'' ''1''), (''A'', site_entry),
          (''D'', legacy_var ''addons'' ''3''), (''C'', legacy_var ''configFile'' ''5'')] \<and>
   ''C'' \<noteq> ''A''"
proof -
  have t: "truthy (or_default [] (Some ''A''))" by (simp add: truthy_def or_default_def)
  have a: "or_default ''any'' (Some ''any'') \<in> {''any'', ''builds'', ''post_processing''}"
    by (simp add: or_default_def)
  note th = getEnvelopeEnv_key_filters_remote_only [OF distinct_local_env resolver_key_example t]
  have c: "(''C'', legacy_var ''configFile'' ''5'') \<in> set local_env" by (simp add: local_env_def)
  from bspec [OF conjunct1 [OF th] c] a
  have 2: "(''C'', legacy_var ''configFile'' ''5'') \<in>
     set [(''G'', legacy_var ''general'' ''1''), (''A'', site_entry),
          (''D'', legacy_var ''addons'' ''3''), (''C'', legacy_var ''configFile'' ''5'')]"
    by (simp add: legacy_var_def)
  have 3: "''C'' \<noteq> ''A''" by simp
  from t resolver_key_example 2 3 show ?thesis by (intro conjI)
qed

subsection \<open>Shape Translator\<close>

lemma mongo_step_value:
  "mongo_step acc r = (case mongo_value r of Some v \<Rightarrow> obj_set acc (key r) v | None \<Rightarrow> acc)"
  by (simp add: mongo_step_def mongo_value_def split: option.splits)

lemma mongo_entries_Cons:
  "mongo_entries (r # xs) =
     (case mongo_value r of Some v \<Rightarrow> (key r, v) # mongo_entries xs | None \<Rightarrow> mongo_entries xs)"
  by (simp add: mongo_entries_def split: option.splits)

lemma foldl_mongo_step:
  "foldl mongo_step acc xs = foldl (\<lambda>a (k, v). obj_set a k v) acc (mongo_entries xs)"
proof (induction xs arbitrary: acc)
  case Nil
  then show ?case by (simp add: mongo_entries_def)
next
  case (Cons r xs)
  have "foldl mongo_step acc (r # xs) =
        foldl (\<lambda>a (k, v). obj_set a k v) (mongo_step acc r) (mongo_entries xs)"
    by (simp add: Cons.IH)
  also have "\<dots> = foldl (\<lambda>a (k, v). obj_set a k v) acc (mongo_entries (r # xs))"
    by (cases "mongo_value r") (simp_all add: mongo_step_value [of acc r] mongo_entries_Cons)
  finally show ?case .
qed

lemma set_mongo_entries:
  "set (mongo_entries xs) = {(n, v). \<exists>r \<in> set xs. key r = n \<and> mongo_value r = Some v}"
  by (induction xs) (auto simp: mongo_entries_Cons mongo_entries_def
      split: option.splits)

lemma map_fst_mongo_entries:
  "map fst (mongo_entries xs) = map key (filter (\<lambda>r. mongo_value r \<noteq> None) xs)"
  by (induction xs) (auto simp: mongo_entries_Cons mongo_entries_def
      split: option.splits)

lemma translateFromEnvelopeToMongo_entries:
  assumes "distinct (map key envVars)"
  shows "translateFromEnvelopeToMongo (Some envVars) = mongo_entries (sort_key lower_key envVars)"
proof -
  have "distinct (map key (filter (\<lambda>r. mongo_value r \<noteq> None) (sort_key lower_key envVars)))"
    by (rule distinct_map_filter) (rule distinct_map_sort_key [OF assms])
  then have "distinct (map fst ([] @ mongo_entries (sort_key lower_key envVars)))"
    by (simp add: map_fst_mongo_entries)
  from foldl_obj_set_fresh [OF this] show ?thesis
    by (simp add: translateFromEnvelopeToMongo_def or_default_def array_sort_compareKeys
        foldl_mongo_step)
qed


section \<open>Multi-to-Flat translator\<close>




lemma mongo_value_from_flat:
  "mongo_value \<lparr>key = k, scopes = sc, item_values = [\<lparr>ve_context = ''all'', ve_value = v\<rparr>]\<rparr> =
     (if truthy v then Some v else None)"
  by (simp add: mongo_value_def)

lemma key_translateFromMongoToEnvelope:
  "map key (translateFromMongoToEnvelope (Some e)) = map fst e"
  by (simp add: translateFromMongoToEnvelope_def or_default_def entries_def comp_def
      case_prod_beta)

section \<open>Flat to Multi and back\<close>

text \<open>
  Claim C5. For a flat env \<open>e\<close> (an object: distinct keys) whose values are all non-empty
  strings, translating to records and back gives an object \<open>m\<close> with the same entries:
  \<open>m\<close> and \<open>e\<close> are the same mapping from names to values. (The keys of \<open>m\<close> are in
  ascending order of their lower-cased form, whatever the order in \<open>e\<close>.)
\<close>

theorem flat_multi_flat_roundtrip:
  assumes "distinct (map fst e)" and "\<forall>(n, v) \<in> set e. truthy v"
    and "m = translateFromEnvelopeToMongo (Some (translateFromMongoToEnvelope (Some e)))"
  shows "map_of m = map_of e \<and> set m = set e \<and> distinct (map fst m) \<and>
         sorted (map toLowerCase (map fst m))"
proof -
  let ?xs = "translateFromMongoToEnvelope (Some e)"
  have dk: "distinct (map key ?xs)"
    unfolding key_translateFromMongoToEnvelope by (rule assms(1))
  have m: "m = mongo_entries (sort_key lower_key ?xs)"
    unfolding assms(3) by (rule translateFromEnvelopeToMongo_entries [OF dk])
  have keys: "map fst m = map key (filter (\<lambda>r. mongo_value r \<noteq> None) (sort_key lower_key ?xs))"
    unfolding m by (rule map_fst_mongo_entries)
  have D: "distinct (map fst m)"
    unfolding keys by (rule distinct_map_filter) (rule distinct_map_sort_key [OF dk])
  have "sorted (map lower_key (filter (\<lambda>r. mongo_value r \<noteq> None) (sort_key lower_key ?xs)))"
    by (rule sorted_filter) simp
  then have S: "sorted (map toLowerCase (map fst m))"
    unfolding keys by (simp add: comp_def lower_key_def [abs_def])
  have "set m = {(n, v). \<exists>r \<in> set ?xs. key r = n \<and> mongo_value r = Some v}"
    unfolding m set_mongo_entries by simp
  also have "\<dots> = set e"
  proof (rule set_eqI)
    fix nv :: "string \<times> string"
    obtain n v where nv: "nv = (n, v)" by (cases nv)
    have "(\<exists>r \<in> set ?xs. key r = n \<and> mongo_value r = Some v) \<longleftrightarrow> (n, v) \<in> set e"
    proof
      assume "\<exists>r \<in> set ?xs. key r = n \<and> mongo_value r = Some v"
      then obtain k w where kw: "(k, w) \<in> set e" and "k = n"
        and "mongo_value \<lparr>key = k, scopes = [''builds'', ''functions'', ''runtime'', ''post_processing''],
                           item_values = [\<lparr>ve_context = ''all'', ve_value = w\<rparr>]\<rparr> = Some v"
        by (auto simp: translateFromMongoToEnvelope_def or_default_def entries_def)
      then show "(n, v) \<in> set e" by (auto simp: mongo_value_from_flat split: if_splits)
    next
      assume e: "(n, v) \<in> set e"
      with assms(2) have "truthy v" by auto
      with e show "\<exists>r \<in> set ?xs. key r = n \<and> mongo_value r = Some v"
        by (force simp: translateFromMongoToEnvelope_def or_default_def entries_def
            mongo_value_from_flat)
    qed
    then show "nv \<in> {(n, v). \<exists>r \<in> set ?xs. key r = n \<and> mongo_value r = Some v} \<longleftrightarrow> nv \<in> set e"
      by (simp add: nv)
  qed
  finally have E: "set m = set e" .
  with D assms(1) have "map_of m = map_of e" by (simp add: map_of_inject_set)
  with E D S show ?thesis by blast
qed

lemma roundtrip_example:
  "translateFromEnvelopeToMongo (Some (translateFromMongoToEnvelope (Some [(''FOO'', ''bar'')]))) =
     [(''FOO'', ''bar'')]"
  by code_simp

text \<open>Claim C5, witness: \<open>{FOO: 'bar'}\<close> comes back as it is, and \<open>{zeta: '1', Alpha: '2'}\<close>
  comes back as the same mapping.\<close>

theorem flat_multi_flat_roundtrip_witness:
  "translateFromEnvelopeToMongo (Some (translateFromMongoToEnvelope (Some [(''FOO'', ''bar'')]))) =
     [(''FOO'', ''bar'')] \<and>
   map_of (translateFromEnvelopeToMongo
             (Some (translateFromMongoToEnvelope (Some [(''zeta'', ''1''), (''Alpha'', ''2'')])))) =
     map_of [(''zeta'', ''1''), (''Alpha'', ''2'')]"
proof -
  have d: "distinct (map fst [(''zeta'', ''1''), (''Alpha'', ''2'')])" by simp
  have t: "\<forall>(n, v) \<in> set [(''zeta'', ''1''), (''Alpha'', ''2'')]. truthy v"
    by (simp add: truthy_def)
  from flat_multi_flat_roundtrip [OF d t refl]
  have "map_of (translateFromEnvelopeToMongo
             (Some (translateFromMongoToEnvelope (Some [(''zeta'', ''1''), (''Alpha'', ''2'')])))) =
     map_of [(''zeta'', ''1''), (''Alpha'', ''2'')]"
    by (rule conjunct1)
  with roundtrip_example show ?thesis by (rule conjI)
qed

subsection \<open>Effects on the caller's arrays\<close>

lemma translateFromEnvelopeToMongo_st_result:
  "envVars < length st \<Longrightarrow>
   fst (translateFromEnvelopeToMongo_st envVars st) = translateFromEnvelopeToMongo (Some (st ! envVars))"
  by (simp add: translateFromEnvelopeToMongo_st_def array_sort_in_place_def
      translateFromEnvelopeToMongo_def or_default_def)

lemma translateFromEnvelopeToMongo_st_store:
  "snd (translateFromEnvelopeToMongo_st envVars st) =
     st[envVars := sort_key lower_key (st ! envVars)]"
  by (simp add: translateFromEnvelopeToMongo_st_def array_sort_in_place_def
      array_sort_compareKeys)

lemma formatEnvelopeData_st_result:
  "envelopeItems < length st \<Longrightarrow>
   fst (formatEnvelopeData_st ctx envelopeItems sc source st) =
     formatEnvelopeData (Some ctx) (Some (Items (st ! envelopeItems))) (Some sc) source"
  by (simp add: formatEnvelopeData_st_def array_filter_def array_sort_in_place_def
      formatEnvelopeData_def or_default_def nth_append del: filter_filter)

lemma formatEnvelopeData_st_frame:
  "take (length st) (snd (formatEnvelopeData_st ctx envelopeItems sc source st)) = st"
  by (simp add: formatEnvelopeData_st_def array_filter_def array_sort_in_place_def)

lemma caller_array_sorted:
  "array_sort compareKeys caller_array = [apple_item, banana_item]"
  by code_simp

section \<open>The translator sorts its argument in place\<close>

text \<open>
  Claim C7 fails for the Multi-to-Flat translator. Called on the caller's array
  \<open>[banana, Apple]\<close> (address 0 of the store), \<open>translateFromEnvelopeToMongo\<close> returns
  \<open>{Apple: 'red', banana: 'yellow'}\<close> and leaves the caller's array reordered to
  \<open>[Apple, banana]\<close>: \<open>sort\<close> is called on the argument itself. The formatter sorts the
  array that \<open>filter\<close> allocated and leaves its argument as it was
  (\<open>formatEnvelopeData_st_frame\<close>).
\<close>

theorem translateFromEnvelopeToMongo_reorders_argument:
  "translateFromEnvelopeToMongo_st 0 [caller_array] =
     ([(''Apple'', ''red''), (''banana'', ''yellow'')], [apple_item, banana_item] # []) \<and>
   snd (translateFromEnvelopeToMongo_st 0 [caller_array]) \<noteq> [caller_array]"
proof -
  have ne: "apple_item \<noteq> banana_item"
    by (simp add: apple_item_def banana_item_def)
  have r: "foldl mongo_step [] [apple_item, banana_item] = [(''Apple'', ''red''), (''banana'', ''yellow'')]"
    by code_simp
  have "translateFromEnvelopeToMongo_st 0 [caller_array] =
     (foldl mongo_step [] (array_sort compareKeys caller_array),
      array_sort compareKeys caller_array # [])"
    by (simp add: translateFromEnvelopeToMongo_st_def array_sort_in_place_def)
  then have e: "translateFromEnvelopeToMongo_st 0 [caller_array] =
     ([(''Apple'', ''red''), (''banana'', ''yellow'')], [apple_item, banana_item] # [])"
    by (simp only: caller_array_sorted r)
  have "[apple_item, banana_item] # [] \<noteq> [caller_array]"
    using ne by (simp add: caller_array_def)
  with e show ?thesis by simp
qed

end
